theory Spec2Isabelle
  imports Complex_Main "HOL-Library.Multiset"
begin

section \<open>Data model (src/types.ts)\<close>

text \<open>
  JavaScript numbers are modelled as mathematical reals: the geometry algorithms are
  read as exact arithmetic, without rounding, NaN or infinities. A JavaScript string is
  the list of its UTF-16 code units.
\<close>

type_synonym jsstring = "nat list"

datatype alignment_value = AlignLeft | AlignCenter | AlignRight | AlignJustify

text \<open>
  The fields of \<open>PdfTextItem\<close> beyond the geometry. An optional field (\<open>isBold?\<close>) is an
  option, \<open>None\<close> when the field is absent. (The field \<open>text\<close> is called \<open>item_text\<close>.)
\<close>

record text_props =
  item_text :: jsstring
  fontSize :: real
  fontName :: jsstring
  isBold :: "bool option"
  letterSpacing :: "real option"
  isParagraphStart :: "bool option"
  indent :: "real option"
  alignment :: "alignment_value option"

datatype method_kind = MethodRect | MethodLine

text \<open>The field \<open>method\<close> of \<open>PdfPathItem\<close> is called \<open>path_method\<close>.\<close>

record path_props =
  path_method :: method_kind
  lineWidth :: real
  strokeColor :: "jsstring option"

datatype cell_align = CellLeft | CellCenter | CellRight

record table_cell =
  cell_text :: jsstring
  isHeader :: "bool option"
  colSpan :: "real option"
  rowSpan :: "real option"
  align :: "cell_align option"

record table_row =
  cells :: "table_cell list"

text \<open>
  The tagged union \<open>PdfTextItem | PdfImageItem | PdfPathItem | PdfTableItem\<close>: the
  geometry is common to the four variants, the rest depends on the \<open>type\<close> tag.
\<close>

datatype item_content =
    TextContent text_props
  | ImageContent jsstring
  | PathContent path_props
  | TableContent "table_row list" bool

datatype item_type = TypeText | TypeImage | TypePath | TypeTable

record item =
  item_x :: real
  item_y :: real
  item_width :: real
  item_height :: real
  content :: item_content

fun content_type :: "item_content \<Rightarrow> item_type" where
  "content_type (TextContent t) = TypeText"
| "content_type (ImageContent d) = TypeImage"
| "content_type (PathContent p) = TypePath"
| "content_type (TableContent rows borders) = TypeTable"

definition type_of :: "'a item_scheme \<Rightarrow> item_type" where
  "type_of i = content_type (content i)"

record pdf_page =
  items :: "item list"
  page_width :: real
  page_height :: real

record pdf_structure =
  pages :: "pdf_page list"


section \<open>Auto-fit renderer (renderStructureToElement, src/services/pdfService.ts)\<close>

text \<open>
  The canvas context behind \<open>measureTextWidth\<close> is an external capability: it maps the
  text, the font stack, the font size and the weight to a width. \<open>measureCtx\<close> is \<open>None\<close>
  when no context could be created, and the measured width is then 0.
\<close>

type_synonym measure_context = "jsstring \<Rightarrow> jsstring \<Rightarrow> real \<Rightarrow> bool \<Rightarrow> real"

definition measureTextWidth ::
  "measure_context option \<Rightarrow> jsstring \<Rightarrow> jsstring \<Rightarrow> real \<Rightarrow> bool \<Rightarrow> real" where
  "measureTextWidth measureCtx txt fontStack fsize bold =
     (case measureCtx of None \<Rightarrow> 0 | Some ctx \<Rightarrow> ctx txt fontStack fsize bold)"

text \<open>\<open>!!item.isBold\<close>: an absent field is falsy.\<close>

definition truthy :: "bool option \<Rightarrow> bool" where
  "truthy b = (case b of None \<Rightarrow> False | Some v \<Rightarrow> v)"

definition scaledFontSize0 :: "real \<Rightarrow> text_props \<Rightarrow> real" where
  "scaledFontSize0 scale t = fontSize t * scale"

definition fullTextWidth ::
  "measure_context option \<Rightarrow> jsstring \<Rightarrow> real \<Rightarrow> text_props \<Rightarrow> real" where
  "fullTextWidth measureCtx fontStack scale t =
     measureTextWidth measureCtx (item_text t) fontStack (scaledFontSize0 scale t)
       (truthy (isBold t))"

text \<open>
  \<open>Math.ceil(fullTextWidth / (containerW * 0.95))\<close>. With a zero divisor JavaScript
  yields an infinity or NaN, which is no line count: the model returns \<open>None\<close> there
  (the source goes on with that value).
\<close>

definition estimatedLines :: "real \<Rightarrow> real \<Rightarrow> int option" where
  "estimatedLines fullW containerW =
     (if containerW * 0.95 = 0 then None else Some \<lceil>fullW / (containerW * 0.95)\<rceil>)"

definition requiredHeight ::
  "measure_context option \<Rightarrow> jsstring \<Rightarrow> real \<Rightarrow> real \<Rightarrow> 'a item_scheme \<Rightarrow> text_props
     \<Rightarrow> real option" where
  "requiredHeight measureCtx fontStack scale userLineSpacing it t =
     (case estimatedLines (fullTextWidth measureCtx fontStack scale t) (item_width it * scale) of
        None \<Rightarrow> None
      | Some n \<Rightarrow> Some (real_of_int n * (scaledFontSize0 scale t * userLineSpacing)))"

text \<open>The font size written into the style of the span (steps 1 to 5 of the source).\<close>

definition autoFitFontSize ::
  "measure_context option \<Rightarrow> jsstring \<Rightarrow> real \<Rightarrow> real \<Rightarrow> 'a item_scheme \<Rightarrow> text_props
     \<Rightarrow> real option" where
  "autoFitFontSize measureCtx fontStack scale userLineSpacing it t =
     (let scaledFontSize = scaledFontSize0 scale t;
          containerW = item_width it * scale;
          containerH = item_height it * scale;
          fullW = fullTextWidth measureCtx fontStack scale t
      in case estimatedLines fullW containerW of
           None \<Rightarrow> None
         | Some n \<Rightarrow>
             (let required = real_of_int n * (scaledFontSize * userLineSpacing)
              in if required > containerH * 1.1
                 then Some (max (scaledFontSize * sqrt (containerH / required))
                                (scaledFontSize * 0.6))
                 else if n = 1 \<and> fullW > containerW
                 then Some (max (scaledFontSize * (containerW / fullW))
                                (scaledFontSize * 0.6))
                 else Some scaledFontSize))"


text \<open>A concrete measurement context, text and box for the examples.\<close>

definition demo_ctx :: measure_context where
  "demo_ctx txt stack fsize bold = real (length txt) * fsize * 0.5"

definition demo_text :: text_props where
  "demo_text = \<lparr> item_text = [72, 105, 33, 32, 72, 105, 33, 32], fontSize = 12.5,
       fontName = [115], isBold = None, letterSpacing = None, isParagraphStart = Some True,
       indent = None, alignment = None \<rparr>"

definition demo_box :: item where
  "demo_box = \<lparr> item_x = 0, item_y = 0, item_width = 100, item_height = 16,
       content = TextContent demo_text \<rparr>"


section \<open>Line-spacing statistics (calculateLineSpacingStats)\<close>

record spacing_stats =
  stdLineHeight :: real
  paraGapThreshold :: real

text \<open>
  The first loop: the absolute gap of each pair of neighbours, kept when it lies strictly
  between 5 and 300, in the order of the input.
\<close>

fun collectGaps :: "real list \<Rightarrow> real list" where
  "collectGaps (a # b # rest) =
     (let gap = \<bar>a - b\<bar>
      in (if gap > 5 \<and> gap < 300 then [gap] else []) @ collectGaps (b # rest))"
| "collectGaps rest = []"

text \<open>
  \<open>frequency\<close> is an object keyed by the rounded gap (\<open>Math.round\<close> rounds half up, as
  \<open>round\<close> does). It is modelled as an association list in insertion order; \<open>bump\<close> is
  \<open>frequency[rounded] = (frequency[rounded] || 0) + 1\<close>.
\<close>

fun bump :: "int \<Rightarrow> (int \<times> nat) list \<Rightarrow> (int \<times> nat) list" where
  "bump k [] = [(k, 1)]"
| "bump k ((k', c) # rest) = (if k = k' then (k', c + 1) # rest else (k', c) # bump k rest)"

definition frequencyOf :: "real list \<Rightarrow> (int \<times> nat) list" where
  "frequencyOf gaps = fold (\<lambda>g frequency. bump (round g) frequency) gaps []"

text \<open>
  \<open>Object.entries\<close> lists integer keys in ascending order; every key here is the rounding
  of a gap between 5 and 300, hence such a key.
\<close>

definition entries :: "(int \<times> nat) list \<Rightarrow> (int \<times> nat) list" where
  "entries frequency = sort_key fst frequency"

text \<open>The second loop, on the pair (mode, maxFreq), started at (0, 0).\<close>

fun modeStep :: "int \<times> nat \<Rightarrow> int \<times> nat \<Rightarrow> int \<times> nat" where
  "modeStep (gap, freq) (mode, maxFreq) =
     (if freq > maxFreq then (gap, freq) else (mode, maxFreq))"

definition findMode :: "(int \<times> nat) list \<Rightarrow> int" where
  "findMode es = fst (fold modeStep es (0, 0))"

definition calculateLineSpacingStats :: "real list \<Rightarrow> spacing_stats" where
  "calculateLineSpacingStats yCoords =
     (if length yCoords < 2 then \<lparr> stdLineHeight = 14, paraGapThreshold = 20 \<rparr>
      else let gaps = collectGaps yCoords
           in if length gaps = 0 then \<lparr> stdLineHeight = 14, paraGapThreshold = 20 \<rparr>
              else let mode = findMode (entries (frequencyOf gaps));
                       std = (if mode > 8 then real_of_int mode
                              else sum_list gaps / real (length gaps))
                   in \<lparr> stdLineHeight = std, paraGapThreshold = std * 1.5 \<rparr>)"

text \<open>
  Invariants used in the proofs: the frequency table holds exactly the positive counts of
  the rounded gaps seen so far, and the running (mode, maxFreq) pair is the first entry of
  highest frequency among the entries visited so far.
\<close>

definition counts_ok :: "(int \<times> nat) list \<Rightarrow> int list \<Rightarrow> bool" where
  "counts_ok fr rs \<longleftrightarrow> distinct (map fst fr)
     \<and> (\<forall>k. map_of fr k = (if count_list rs k = 0 then None else Some (count_list rs k)))"

definition mode_inv :: "(int \<times> nat) list \<Rightarrow> int \<times> nat \<Rightarrow> bool" where
  "mode_inv pre acc \<longleftrightarrow>
     (\<forall>e \<in> set pre. snd e \<le> snd acc)
     \<and> (acc = (0, 0) \<or> (acc \<in> set pre \<and> (\<forall>e \<in> set pre. snd e = snd acc \<longrightarrow> fst acc \<le> fst e)))"


section \<open>Reading-order reconstruction (reorderItemsByReadingFlow)\<close>

datatype axis = AxisX | AxisY

text \<open>An interval \<open>{s, e}\<close> is the pair of its start and its end.\<close>

type_synonym interval = "real \<times> real"

definition MIN_COL_GAP :: real where "MIN_COL_GAP = 14"
definition MIN_ROW_GAP :: real where "MIN_ROW_GAP = 6"

definition getContributors :: "'a item_scheme list \<Rightarrow> 'a item_scheme list" where
  "getContributors list =
     filter (\<lambda>i. type_of i = TypeText \<or> type_of i = TypeImage \<or> type_of i = TypeTable) list"

definition intervalOf :: "axis \<Rightarrow> 'a item_scheme \<Rightarrow> interval" where
  "intervalOf ax i =
     (case ax of AxisX \<Rightarrow> (item_x i, item_x i + item_width i)
               | AxisY \<Rightarrow> (item_y i, item_y i + item_height i))"

text \<open>
  The merging loop of \<open>findSplit\<close>, on the running interval \<open>current\<close> and the
  intervals still to visit; the result is the array \<open>merged\<close>.
\<close>

fun mergeIntervals :: "interval \<Rightarrow> interval list \<Rightarrow> interval list" where
  "mergeIntervals current [] = [current]"
| "mergeIntervals current (next # rest) =
     (if fst next < snd current - 0.1
      then mergeIntervals (fst current, max (snd current) (snd next)) rest
      else current # mergeIntervals next rest)"

text \<open>The gap loop of \<open>findSplit\<close>, on \<open>bestGap\<close> (\<open>None\<close> for null) and \<open>maxGapSize\<close>.\<close>

fun bestGapLoop :: "real \<Rightarrow> interval list \<Rightarrow> real option \<Rightarrow> real \<Rightarrow> real option" where
  "bestGapLoop minSize (a # b # rest) bestGap maxGapSize =
     (let gapSize = fst b - snd a
      in if gapSize > minSize \<and> gapSize > maxGapSize
         then bestGapLoop minSize (b # rest) (Some ((snd a + fst b) / 2)) gapSize
         else bestGapLoop minSize (b # rest) bestGap maxGapSize)"
| "bestGapLoop minSize rest bestGap maxGapSize = bestGap"

text \<open>
  The intervals are sorted by their start; the comparator \<open>a.s - b.s\<close> is a consistent
  order and the sort is stable, as \<open>sort_key\<close> is.
\<close>

definition findSplit :: "'a item_scheme list \<Rightarrow> axis \<Rightarrow> real option" where
  "findSplit list ax =
     (let contributors = getContributors list
      in if length contributors < 2 then None
         else (case sort_key fst (map (intervalOf ax) contributors) of
                 [] \<Rightarrow> None
               | current # rest \<Rightarrow>
                   bestGapLoop (case ax of AxisX \<Rightarrow> MIN_COL_GAP | AxisY \<Rightarrow> MIN_ROW_GAP)
                     (mergeIntervals current rest) None 0))"

text \<open>
  The comparator of the final sort, and the sort itself as a stable insertion sort driven
  by the sign of the comparator. The comparator is not a consistent order on every input
  (closeness within 6 units is not transitive); the order that a JavaScript engine
  produces is fixed by the language only where the comparator is consistent. On a group
  of three or more items with an inconsistent comparator the order below can differ from
  the one an engine gives; the items are the same.
\<close>

definition compareAtomic :: "'a item_scheme \<Rightarrow> 'a item_scheme \<Rightarrow> real" where
  "compareAtomic a b =
     (if \<bar>item_y a - item_y b\<bar> > 6 then item_y a - item_y b else item_x a - item_x b)"

fun insertBy :: "('b \<Rightarrow> 'b \<Rightarrow> real) \<Rightarrow> 'b \<Rightarrow> 'b list \<Rightarrow> 'b list" where
  "insertBy cmp a [] = [a]"
| "insertBy cmp a (b # bs) = (if cmp a b < 0 then a # b # bs else b # insertBy cmp a bs)"

definition sortBy :: "('b \<Rightarrow> 'b \<Rightarrow> real) \<Rightarrow> 'b list \<Rightarrow> 'b list" where
  "sortBy cmp list = fold (insertBy cmp) list []"

definition centerX :: "'a item_scheme \<Rightarrow> real" where
  "centerX i = item_x i + item_width i / 2"

definition centerY :: "'a item_scheme \<Rightarrow> real" where
  "centerY i = item_y i + item_height i / 2"

text \<open>
  \<open>recursiveOrder\<close> calls itself on the two halves of a split. Nothing in the code makes
  a half smaller than the list, so the function is defined as a partial function: the
  value \<open>None\<close> stands for a recursion that does not return.
\<close>

partial_function (option) recursiveOrder :: "'a item_scheme list \<Rightarrow> 'a item_scheme list option" where
  "recursiveOrder list =
     (if length list \<le> 1 then Some list
      else case findSplit list AxisX of
             Some splitX \<Rightarrow>
               Option.bind (recursiveOrder (filter (\<lambda>i. centerX i < splitX) list)) (\<lambda>left.
               Option.bind (recursiveOrder (filter (\<lambda>i. centerX i \<ge> splitX) list)) (\<lambda>right.
                 Some (left @ right)))
           | None \<Rightarrow>
               (case findSplit list AxisY of
                  Some splitY \<Rightarrow>
                    Option.bind (recursiveOrder (filter (\<lambda>i. centerY i < splitY) list)) (\<lambda>top.
                    Option.bind (recursiveOrder (filter (\<lambda>i. centerY i \<ge> splitY) list)) (\<lambda>bottom.
                      Some (top @ bottom)))
                | None \<Rightarrow> Some (sortBy compareAtomic list)))"

definition reorderItemsByReadingFlow :: "'a item_scheme list \<Rightarrow> 'a item_scheme list option" where
  "reorderItemsByReadingFlow list = recursiveOrder list"


text \<open>Example items: a box with the given x, y, width, height and content.\<close>

definition box :: "real \<Rightarrow> real \<Rightarrow> real \<Rightarrow> real \<Rightarrow> item_content \<Rightarrow> item" where
  "box px py w h c = \<lparr> item_x = px, item_y = py, item_width = w, item_height = h, content = c \<rparr>"

definition demo_page :: "item list" where
  "demo_page = [box 150 0 100 10 (TextContent demo_text),
                box 0 100 100 10 (TextContent demo_text),
                box 0 0 100 10 (ImageContent [])]"

text \<open>
  Two items whose widths are negative: the x-split leaves both on the left, and the
  recursion calls itself on the same list.
\<close>

definition inverted_pair :: "item list" where
  "inverted_pair = [box 0 0 (-200) 10 (ImageContent []), box 1 0 (-300) 10 (ImageContent [])]"


section \<open>Text block merger (mergeTextBlocks)\<close>

text \<open>
  The code units matched by \<open>\s\<close> in a regular expression, which are also the ones
  that \<open>trim\<close> removes: white space and line terminators.
\<close>

definition isWhitespace :: "nat \<Rightarrow> bool" where
  "isWhitespace c \<longleftrightarrow>
     c = 9 \<or> c = 10 \<or> c = 11 \<or> c = 12 \<or> c = 13 \<or> c = 32 \<or> c = 160 \<or> c = 5760
     \<or> (8192 \<le> c \<and> c \<le> 8202) \<or> c = 8232 \<or> c = 8233 \<or> c = 8239 \<or> c = 8287
     \<or> c = 12288 \<or> c = 65279"

definition isDigit :: "nat \<Rightarrow> bool" where
  "isDigit c \<longleftrightarrow> 48 \<le> c \<and> c \<le> 57"

text \<open>
  The two list patterns of the source. The first is the character class of the bullet (U+2022),
  the black circle (U+25CF), the hyphen and the asterisk, then \<open>\s\<close>. The second is
  \<open>\d+\<close>, then a full stop or a closing parenthesis, then \<open>\s\<close>; the digits are matched
  greedily, and giving one back cannot help since a digit is neither of the two marks.
\<close>

definition isBulletGlyph :: "nat \<Rightarrow> bool" where
  "isBulletGlyph c \<longleftrightarrow> c = 8226 \<or> c = 9679 \<or> c = 45 \<or> c = 42"

definition bulletPattern :: "jsstring \<Rightarrow> bool" where
  "bulletPattern t = (case t of c # w # rest \<Rightarrow> isBulletGlyph c \<and> isWhitespace w | _ \<Rightarrow> False)"

definition numberPattern :: "jsstring \<Rightarrow> bool" where
  "numberPattern t =
     (takeWhile isDigit t \<noteq> []
      \<and> (case dropWhile isDigit t of
            p # w # rest \<Rightarrow> (p = 46 \<or> p = 41) \<and> isWhitespace w
          | _ \<Rightarrow> False))"

text \<open>\<open>text.trim()\<close>, \<open>endsWith('-')\<close>; \<open>slice(0, -1)\<close> is \<open>butlast\<close>.\<close>

definition trim :: "jsstring \<Rightarrow> jsstring" where
  "trim t = rev (dropWhile isWhitespace (rev (dropWhile isWhitespace t)))"

definition endsWithHyphen :: "jsstring \<Rightarrow> bool" where
  "endsWithHyphen t \<longleftrightarrow> t \<noteq> [] \<and> last t = 45"

text \<open>
  The test of the loop body, for two items that are both text items: \<open>current\<close> with
  its text fields \<open>ct\<close> and \<open>next\<close> with its text fields \<open>nt\<close>.
\<close>

definition canMerge :: "item \<Rightarrow> text_props \<Rightarrow> item \<Rightarrow> text_props \<Rightarrow> bool" where
  "canMerge current ct nxt nt =
     (let sameFont = (fontName ct = fontName nt);
          sameSize = (\<bar>fontSize ct - fontSize nt\<bar> < 2.0);
          lineSpacing = item_y nxt - item_y current;
          isContinuousVertical = (lineSpacing > 0 \<and> lineSpacing < fontSize ct * 2.5);
          isAlignedLeft = (\<bar>item_x current - item_x nxt\<bar> < 20);
          isFlowing = (item_x nxt \<ge> item_x current - 40
                       \<and> item_x nxt + item_width nxt \<le> item_x current + item_width current + 40);
          isList = (bulletPattern (item_text nt) \<or> numberPattern (item_text nt))
      in sameFont \<and> sameSize \<and> isContinuousVertical \<and> (isAlignedLeft \<or> isFlowing) \<and> \<not> isList)"

text \<open>
  The merge branch. The source writes the fields of \<open>current\<close> in place; here the
  updated item is returned. \<open>current.indent || 0\<close> reads an absent indent as 0.
\<close>

definition mergedText :: "jsstring \<Rightarrow> jsstring \<Rightarrow> jsstring" where
  "mergedText cur nxt =
     (if endsWithHyphen (trim cur) then butlast (trim cur) @ nxt else cur @ [32] @ nxt)"

definition mergeInto :: "item \<Rightarrow> text_props \<Rightarrow> item \<Rightarrow> text_props \<Rightarrow> item" where
  "mergeInto current ct nxt nt =
     (let newText = mergedText (item_text ct) (item_text nt);
          newX = min (item_x current) (item_x nxt);
          newWidth = max (item_x current + item_width current) (item_x nxt + item_width nxt) - newX;
          newHeight = (item_y nxt + item_height nxt) - item_y current;
          hanging = (item_x nxt < item_x current - 5);
          newIndent = (if hanging
                       then Some ((case indent ct of None \<Rightarrow> 0 | Some v \<Rightarrow> v)
                                  + (item_x current - item_x nxt))
                       else indent ct)
      in current\<lparr> item_x := (if hanging then item_x nxt else item_x current),
                  item_width := newWidth,
                  item_height := newHeight,
                  content := TextContent (ct\<lparr> item_text := newText, indent := newIndent \<rparr>) \<rparr>)"

text \<open>One round of the loop, on the pair of the array \<open>merged\<close> and \<open>current\<close>.\<close>

fun mergeStep :: "item list \<times> item \<Rightarrow> item \<Rightarrow> item list \<times> item" where
  "mergeStep (merged, current) nxt =
     (case (content current, content nxt) of
        (TextContent ct, TextContent nt) \<Rightarrow>
          if canMerge current ct nxt nt then (merged, mergeInto current ct nxt nt)
          else (merged @ [current], nxt)
      | _ \<Rightarrow> (merged @ [current], nxt))"

definition mergeTextBlocks :: "item list \<Rightarrow> item list" where
  "mergeTextBlocks its =
     (case its of
        [] \<Rightarrow> []
      | first # rest \<Rightarrow>
          (case fold (\<lambda>nxt st. mergeStep st nxt) rest ([], first) of
             (merged, current) \<Rightarrow> merged @ [current]))"

text \<open>
  Example text items, with the fields that line grouping sets, and the strings "inter-",
  "inter- ", "national", "international" and a bullet item as code units.
\<close>

definition textProps :: "jsstring \<Rightarrow> real \<Rightarrow> text_props" where
  "textProps txt fs =
     \<lparr> item_text = txt, fontSize = fs, fontName = [70], isBold = Some False,
       letterSpacing = None, isParagraphStart = Some False, indent = Some 0,
       alignment = None \<rparr>"

definition textItem :: "real \<Rightarrow> real \<Rightarrow> real \<Rightarrow> real \<Rightarrow> jsstring \<Rightarrow> real \<Rightarrow> item" where
  "textItem px py w h txt fs = box px py w h (TextContent (textProps txt fs))"

definition str_inter :: jsstring where "str_inter = [105, 110, 116, 101, 114, 45]"
definition str_inter_sp :: jsstring where "str_inter_sp = [105, 110, 116, 101, 114, 45, 32]"
definition str_national :: jsstring where "str_national = [110, 97, 116, 105, 111, 110, 97, 108]"
definition str_international :: jsstring where
  "str_international = [105, 110, 116, 101, 114, 110, 97, 116, 105, 111, 110, 97, 108]"

text \<open>
  The fusion criteria in the words of the specification, to be compared with the test of
  the code: a list marker is a bullet glyph or a run of digits followed by a full stop or a
  closing parenthesis, followed by white space.
\<close>

definition specListMarker :: "jsstring \<Rightarrow> bool" where
  "specListMarker t \<longleftrightarrow>
     (\<exists>c w r. t = c # w # r \<and> (c = 8226 \<or> c = 9679 \<or> c = 45 \<or> c = 42) \<and> isWhitespace w)
     \<or> (\<exists>ds p w r. t = ds @ p # w # r \<and> ds \<noteq> [] \<and> (\<forall>d \<in> set ds. 48 \<le> d \<and> d \<le> 57)
           \<and> (p = 46 \<or> p = 41) \<and> isWhitespace w)"

definition specFusionCriteria :: "item \<Rightarrow> text_props \<Rightarrow> item \<Rightarrow> text_props \<Rightarrow> bool" where
  "specFusionCriteria current ct nxt nt \<longleftrightarrow>
     fontName ct = fontName nt
     \<and> \<bar>fontSize ct - fontSize nt\<bar> < 2
     \<and> 0 < item_y nxt - item_y current \<and> item_y nxt - item_y current < fontSize ct * 2.5
     \<and> (\<bar>item_x current - item_x nxt\<bar> < 20
         \<or> (item_x current - 40 \<le> item_x nxt
             \<and> item_x nxt + item_width nxt \<le> item_x current + item_width current + 40))
     \<and> \<not> specListMarker (item_text nt)"

section \<open>Line grouping (extractPdfStructure)\<close>

text \<open>
  A text run as the PDF library hands it over: the string, the entries 0, 1, 4 and 5 of
  its transform (entries 4 and 5 are the x and the y of the baseline), its width, and its
  font name if it has one.
\<close>

record text_run =
  str :: jsstring
  transform0 :: real
  transform1 :: real
  transform4 :: real
  transform5 :: real
  run_width :: real
  run_fontName :: "jsstring option"

text \<open>
  \<open>(item.fontName || '').toLowerCase().includes('bold')\<close>. Lower-casing is modelled on
  the letters A to Z only: no other character lower-cases to one of b, o, l, d.
\<close>

definition toLowerCaseAscii :: "jsstring \<Rightarrow> jsstring" where
  "toLowerCaseAscii t = map (\<lambda>c. if 65 \<le> c \<and> c \<le> 90 then c + 32 else c) t"

fun startsWith :: "jsstring \<Rightarrow> jsstring \<Rightarrow> bool" where
  "startsWith [] t = True"
| "startsWith (p # ps) [] = False"
| "startsWith (p # ps) (c # cs) = (p = c \<and> startsWith ps cs)"

fun includesStr :: "jsstring \<Rightarrow> jsstring \<Rightarrow> bool" where
  "includesStr p [] = startsWith p []"
| "includesStr p (c # cs) = (startsWith p (c # cs) \<or> includesStr p cs)"

definition str_bold :: jsstring where "str_bold = [98, 111, 108, 100]"
definition str_sans_serif :: jsstring where
  "str_sans_serif = [115, 97, 110, 115, 45, 115, 101, 114, 105, 102]"

text \<open>\<open>!item.str || item.str.trim().length === 0\<close>: such a run is skipped.\<close>

definition isBlank :: "jsstring \<Rightarrow> bool" where
  "isBlank s \<longleftrightarrow> s = [] \<or> length (trim s) = 0"

text \<open>
  \<open>lineMap\<close> maps the y rounded to half units to the runs of that line, in the order
  of arrival. \<open>lineMap.get(y)!\<close> is only called on keys of the map.
\<close>

definition lineKey :: "text_run \<Rightarrow> real" where
  "lineKey r = real_of_int (round (transform5 r * 2)) / 2"

fun lineMapPush :: "real \<Rightarrow> text_run \<Rightarrow> (real \<times> text_run list) list \<Rightarrow> (real \<times> text_run list) list" where
  "lineMapPush k r [] = [(k, [r])]"
| "lineMapPush k r ((k', rs) # m) =
     (if k' = k then (k', rs @ [r]) # m else (k', rs) # lineMapPush k r m)"

definition buildLineMap :: "text_run list \<Rightarrow> (real \<times> text_run list) list" where
  "buildLineMap runs =
     fold (\<lambda>r lineMap. if isBlank (str r) then lineMap else lineMapPush (lineKey r) r lineMap)
       runs []"

definition lineMapGet :: "(real \<times> text_run list) list \<Rightarrow> real \<Rightarrow> text_run list" where
  "lineMapGet lineMap k = (case map_of lineMap k of None \<Rightarrow> [] | Some rs \<Rightarrow> rs)"

text \<open>The alignment given to a new group, from its x and width at that moment.\<close>

definition assignAlignment :: "real \<Rightarrow> real \<Rightarrow> real \<Rightarrow> alignment_value option" where
  "assignAlignment viewportWidth gx gw =
     (let pageMid = viewportWidth / 2;
          centerDev = \<bar>(gx + gw / 2) - pageMid\<bar>
      in if centerDev < 15 then Some AlignCenter
         else if gx > viewportWidth * 0.65 then Some AlignRight
         else None)"

text \<open>
  The state of the two nested loops. The source pushes \<open>currentGroup\<close> onto
  \<open>pageItems\<close> when it creates it and keeps writing to it while runs are fused into it.
  Here \<open>pageItems\<close> holds the finished items and \<open>currentGroup\<close> the one still being
  written, appended when the next group starts or the line ends. \<open>previousY\<close> and
  \<open>previousX\<close> start at -1, the value the source takes for "none". The fields carry the
  prefix \<open>st\<close>.
\<close>

record group_state =
  st_pageItems :: "item list"
  st_currentGroup :: "item option"
  st_previousY :: real
  st_previousX :: real

text \<open>
  The else branch: a new group from the run \<open>r\<close> on the line \<open>ly\<close>, with the
  paragraph and indent detection and the alignment.
\<close>

definition newGroup ::
  "real \<Rightarrow> real \<Rightarrow> real \<Rightarrow> real \<Rightarrow> group_state \<Rightarrow> text_run \<Rightarrow> item" where
  "newGroup viewportWidth viewportHeight paraGap ly st r =
     (let gx = transform4 r;
          fsize = sqrt ((transform0 r)\<^sup>2 + (transform1 r)\<^sup>2);
          gap = (if st_previousY st \<noteq> -1 then \<bar>st_previousY st - ly\<bar> else 0);
          isNewParagraph = (st_previousY st = -1 \<or> gap > paraGap);
          diff = gx - st_previousX st;
          currentIndent = (if isNewParagraph \<and> st_previousX st \<noteq> -1 \<and> diff > 10 \<and> diff < 80
                           then diff else 0)
      in \<lparr> item_x = gx,
           item_y = viewportHeight - ly - fsize,
           item_width = run_width r,
           item_height = fsize,
           content = TextContent
             \<lparr> item_text = str r,
               fontSize = fsize,
               fontName = (case run_fontName r of None \<Rightarrow> str_sans_serif
                           | Some n \<Rightarrow> if n = [] then str_sans_serif else n),
               isBold = Some (includesStr str_bold
                                (toLowerCaseAscii (case run_fontName r of None \<Rightarrow> [] | Some n \<Rightarrow> n))),
               letterSpacing = None,
               isParagraphStart = Some isNewParagraph,
               indent = Some currentIndent,
               alignment = assignAlignment viewportWidth gx (run_width r) \<rparr> \<rparr>)"

text \<open>The then branch: the run is appended to the current group, which is widened.\<close>

definition fuseRun :: "item \<Rightarrow> text_run \<Rightarrow> item" where
  "fuseRun g r =
     (let gx = transform4 r;
          charWidth = run_width r / real (length (str r));
          gap = gx - (item_x g + item_width g)
      in g\<lparr> item_width := (gx + run_width r) - item_x g,
             content := (case content g of
                TextContent t \<Rightarrow>
                  TextContent (t\<lparr> item_text :=
                     item_text t @ (if gap > charWidth * 0.3 then [32] else []) @ str r \<rparr>)
              | c \<Rightarrow> c) \<rparr>)"

definition groupStep ::
  "real \<Rightarrow> real \<Rightarrow> real \<Rightarrow> real \<Rightarrow> text_run \<Rightarrow> group_state \<Rightarrow> group_state" where
  "groupStep viewportWidth viewportHeight paraGap ly r st =
     (let gx = transform4 r;
          charWidth = run_width r / real (length (str r));
          splitThreshold = max (charWidth * 2.5) 12
      in case st_currentGroup st of
           Some g \<Rightarrow>
             if gx - (item_x g + item_width g) < splitThreshold
             then st\<lparr> st_currentGroup := Some (fuseRun g r) \<rparr>
             else st\<lparr> st_pageItems := st_pageItems st @ [g],
                      st_currentGroup := Some (newGroup viewportWidth viewportHeight paraGap ly st r),
                      st_previousY := ly, st_previousX := gx \<rparr>
         | None \<Rightarrow>
             st\<lparr> st_currentGroup := Some (newGroup viewportWidth viewportHeight paraGap ly st r),
                 st_previousY := ly, st_previousX := gx \<rparr>)"

definition closeLine :: "group_state \<Rightarrow> group_state" where
  "closeLine st =
     (case st_currentGroup st of
        None \<Rightarrow> st
      | Some g \<Rightarrow> st\<lparr> st_pageItems := st_pageItems st @ [g], st_currentGroup := None \<rparr>)"

definition groupLine ::
  "real \<Rightarrow> real \<Rightarrow> real \<Rightarrow> (real \<times> text_run list) list \<Rightarrow> real \<Rightarrow> group_state \<Rightarrow> group_state" where
  "groupLine viewportWidth viewportHeight paraGap lineMap ly st =
     closeLine (fold (groupStep viewportWidth viewportHeight paraGap ly)
                  (sort_key transform4 (lineMapGet lineMap ly)) st)"

text \<open>The text part of \<open>extractPdfStructure\<close> for one page, before reordering.\<close>

definition groupTextRuns :: "real \<Rightarrow> real \<Rightarrow> text_run list \<Rightarrow> item list" where
  "groupTextRuns viewportWidth viewportHeight runs =
     (let lineMap = buildLineMap runs;
          sortedY = rev (sort (map fst lineMap));
          stats = calculateLineSpacingStats sortedY
      in st_pageItems
           (fold (groupLine viewportWidth viewportHeight (paraGapThreshold stats) lineMap) sortedY
              \<lparr> st_pageItems = [], st_currentGroup = None, st_previousY = -1, st_previousX = -1 \<rparr>))"

text \<open>Two runs of one line on a page 600 wide, and the items that grouping makes of them.\<close>

definition run1 :: text_run where
  "run1 = \<lparr> str = [65], transform0 = 12, transform1 = 0, transform4 = 290, transform5 = 700,
            run_width = 20, run_fontName = Some [70] \<rparr>"
definition run2 :: text_run where
  "run2 = \<lparr> str = [66, 67, 68, 69, 70, 71, 72, 73, 74, 75], transform0 = 12, transform1 = 0,
            transform4 = 312, transform5 = 700, run_width = 200, run_fontName = Some [70] \<rparr>"

definition grouped_one :: item where
  "grouped_one = \<lparr> item_x = 290, item_y = 88, item_width = 20, item_height = 12,
     content = TextContent \<lparr> item_text = [65], fontSize = 12, fontName = [70],
       isBold = Some False, letterSpacing = None, isParagraphStart = Some True,
       indent = Some 0, alignment = Some AlignCenter \<rparr> \<rparr>"

definition grouped_two :: item where
  "grouped_two = \<lparr> item_x = 290, item_y = 88, item_width = 222, item_height = 12,
     content = TextContent \<lparr> item_text = [65, 66, 67, 68, 69, 70, 71, 72, 73, 74, 75],
       fontSize = 12, fontName = [70],
       isBold = Some False, letterSpacing = None, isParagraphStart = Some True,
       indent = Some 0, alignment = Some AlignCenter \<rparr> \<rparr>"


section \<open>Translation of a structure (translatePdfStructure)\<close>

text \<open>
  The translation service is outside the program. What the loop needs of one call is
  modelled as its reply: the call failed with a GeminiError of code FATAL (thrown on by the
  loop); it failed otherwise, or answered with no text or with text that does not parse
  (the batch is skipped); it answered with a value that is not an array; or it answered
  with an array of strings. For a table the parsed answer is stored as the rows. A
  service is a function of the page index, the index in the loop and the request, so that
  any sequence of replies can be given.
\<close>

datatype gemini_error = FatalGeminiError

datatype text_reply = ReplyFatal | ReplyFailed | ReplyNotArray | ReplyArray "jsstring list"

datatype table_reply = TableFatal | TableFailed | TableRows "table_row list"

type_synonym text_service = "nat \<Rightarrow> nat \<Rightarrow> jsstring list \<Rightarrow> text_reply"
type_synonym table_service = "nat \<Rightarrow> nat \<Rightarrow> table_row list \<Rightarrow> table_reply"

definition BATCH_SIZE :: nat where "BATCH_SIZE = 40"

text \<open>
  \<open>textIndices\<close> and \<open>textContents\<close>: the positions and the texts of the text items whose
  trimmed text is not empty. \<open>pageItems\<close> is a deep copy of the items of the page, made by
  a JSON round trip, which gives back every item of the data model as it is.
\<close>

definition isTranslatable :: "item \<Rightarrow> bool" where
  "isTranslatable it =
     (case content it of TextContent t \<Rightarrow> length (trim (item_text t)) > 0 | _ \<Rightarrow> False)"

definition textIndicesOf :: "item list \<Rightarrow> nat list" where
  "textIndicesOf pageItems = filter (\<lambda>idx. isTranslatable (pageItems ! idx)) [0 ..< length pageItems]"

definition textContentsOf :: "item list \<Rightarrow> jsstring list" where
  "textContentsOf pageItems =
     map (\<lambda>idx. case content (pageItems ! idx) of TextContent t \<Rightarrow> item_text t | _ \<Rightarrow> [])
       (textIndicesOf pageItems)"

text \<open>
  \<open>(pageItems[originalIdx] as PdfTextItem).text = text\<close> and
  \<open>(pageItems[i] as PdfTableItem).rows = ...\<close>. The first is only reached at the
  position of a text item and the second at the position of a table item.
\<close>

definition setText :: "jsstring \<Rightarrow> item \<Rightarrow> item" where
  "setText txt it =
     (case content it of
        TextContent t \<Rightarrow> it\<lparr> content := TextContent (t\<lparr> item_text := txt \<rparr>) \<rparr>
      | _ \<Rightarrow> it)"

definition setRows :: "table_row list \<Rightarrow> item \<Rightarrow> item" where
  "setRows rows it =
     (case content it of
        TableContent old borders \<Rightarrow> it\<lparr> content := TableContent rows borders \<rparr>
      | _ \<Rightarrow> it)"

text \<open>
  The \<open>forEach\<close> over \<open>translatedBatch\<close>, from \<open>bIdx\<close> on. The branch for a length
  mismatch tests \<open>bIdx < batch.length\<close>; in the other branch the test holds by itself.
  \<open>originalIdx !== undefined\<close> is the test that the index lies inside \<open>textIndices\<close>.
\<close>

fun assignBatch :: "nat list \<Rightarrow> nat \<Rightarrow> nat \<Rightarrow> nat \<Rightarrow> jsstring list \<Rightarrow> item list \<Rightarrow> item list" where
  "assignBatch textIndices i batchLength bIdx [] pageItems = pageItems"
| "assignBatch textIndices i batchLength bIdx (txt # others) pageItems =
     assignBatch textIndices i batchLength (bIdx + 1) others
       (if bIdx < batchLength \<and> i + bIdx < length textIndices
        then pageItems[textIndices ! (i + bIdx) := setText txt (pageItems ! (textIndices ! (i + bIdx)))]
        else pageItems)"

text \<open>The loop over the batches, from the index \<open>i\<close> on, in steps of \<open>BATCH_SIZE\<close>.\<close>

function translateBatches ::
  "text_service \<Rightarrow> nat \<Rightarrow> nat list \<Rightarrow> jsstring list \<Rightarrow> nat \<Rightarrow> item list
     \<Rightarrow> gemini_error + item list" where
  "translateBatches ai pIdx textIndices textContents i pageItems =
     (if i < length textContents
      then (let batch = take BATCH_SIZE (drop i textContents)
            in case ai pIdx i batch of
                 ReplyFatal \<Rightarrow> Inl FatalGeminiError
               | ReplyFailed \<Rightarrow>
                   translateBatches ai pIdx textIndices textContents (i + BATCH_SIZE) pageItems
               | ReplyNotArray \<Rightarrow>
                   translateBatches ai pIdx textIndices textContents (i + BATCH_SIZE) pageItems
               | ReplyArray translatedBatch \<Rightarrow>
                   translateBatches ai pIdx textIndices textContents (i + BATCH_SIZE)
                     (assignBatch textIndices i (length batch) 0 translatedBatch pageItems))
      else Inr pageItems)"
  by pat_completeness auto
termination
  by (relation "measure (\<lambda>(ai, pIdx, textIndices, textContents, i, pageItems).
        length textContents - i)") (auto simp: BATCH_SIZE_def)

text \<open>The loop over the tables of the page, from the index \<open>i\<close> on.\<close>

function translateTables ::
  "table_service \<Rightarrow> nat \<Rightarrow> nat \<Rightarrow> item list \<Rightarrow> gemini_error + item list" where
  "translateTables ai pIdx i pageItems =
     (if i < length pageItems
      then (case content (pageItems ! i) of
              TableContent rows borders \<Rightarrow>
                (case ai pIdx i rows of
                   TableFatal \<Rightarrow> Inl FatalGeminiError
                 | TableFailed \<Rightarrow> translateTables ai pIdx (i + 1) pageItems
                 | TableRows parsed \<Rightarrow>
                     translateTables ai pIdx (i + 1)
                       (pageItems[i := setRows parsed (pageItems ! i)]))
            | _ \<Rightarrow> translateTables ai pIdx (i + 1) pageItems)
      else Inr pageItems)"
  by pat_completeness auto
termination
  by (relation "measure (\<lambda>(ai, pIdx, i, pageItems). length pageItems - i)") auto

text \<open>
  The body of the page loop: \<open>{ ...page, items: pageItems }\<close> keeps every other field of
  the page. The progress callback and the delays have no part in the result.
\<close>

definition translatePage ::
  "text_service \<Rightarrow> table_service \<Rightarrow> nat \<Rightarrow> pdf_page \<Rightarrow> gemini_error + pdf_page" where
  "translatePage textAi tableAi pIdx page =
     (let pageItems = items page
      in case translateBatches textAi pIdx (textIndicesOf pageItems) (textContentsOf pageItems)
                0 pageItems of
           Inl err \<Rightarrow> Inl err
         | Inr pageItems1 \<Rightarrow>
             (case translateTables tableAi pIdx 0 pageItems1 of
                Inl err \<Rightarrow> Inl err
              | Inr pageItems2 \<Rightarrow> Inr (page\<lparr> items := pageItems2 \<rparr>)))"

fun translatePages ::
  "text_service \<Rightarrow> table_service \<Rightarrow> nat \<Rightarrow> pdf_page list \<Rightarrow> pdf_page list
     \<Rightarrow> gemini_error + pdf_page list" where
  "translatePages textAi tableAi pIdx [] newPages = Inr newPages"
| "translatePages textAi tableAi pIdx (page # rest) newPages =
     (case translatePage textAi tableAi pIdx page of
        Inl err \<Rightarrow> Inl err
      | Inr newPage \<Rightarrow> translatePages textAi tableAi (pIdx + 1) rest (newPages @ [newPage]))"

definition translatePdfStructure ::
  "text_service \<Rightarrow> table_service \<Rightarrow> pdf_structure \<Rightarrow> gemini_error + pdf_structure" where
  "translatePdfStructure textAi tableAi structure =
     (case translatePages textAi tableAi 0 (pages structure) [] of
        Inl err \<Rightarrow> Inl err
      | Inr newPages \<Rightarrow> Inr \<lparr> pages = newPages \<rparr>)"



text \<open>
  For the proofs: an item with its text and its rows blanked, and two pages of the same
  size whose items agree once blanked.
\<close>

definition frameOf :: "item \<Rightarrow> item" where
  "frameOf it =
     it\<lparr> content := (case content it of
                        TextContent t \<Rightarrow> TextContent (t\<lparr> item_text := [] \<rparr>)
                      | TableContent rows borders \<Rightarrow> TableContent [] borders
                      | c \<Rightarrow> c) \<rparr>"

definition sameFrame :: "pdf_page \<Rightarrow> pdf_page \<Rightarrow> bool" where
  "sameFrame p q \<longleftrightarrow> page_width q = page_width p \<and> page_height q = page_height p
     \<and> map frameOf (items q) = map frameOf (items p)"

text \<open>
  An example: a service that answers each text reversed and each table with no rows, on
  a page of one text item and one table.
\<close>

definition demo_textAi :: text_service where
  "demo_textAi p i batch = ReplyArray (map rev batch)"

definition demo_tableAi :: table_service where
  "demo_tableAi p i rows = TableRows []"

definition demo_table :: item where
  "demo_table = box 0 100 100 50
     (TableContent [\<lparr> cells = [\<lparr> cell_text = [65], isHeader = Some True, colSpan = None,
                                  rowSpan = None, align = None \<rparr>] \<rparr>] True)"

definition demo_structure :: pdf_structure where
  "demo_structure = \<lparr> pages = [\<lparr> items = [textItem 10 20 100 12 str_inter 12, demo_table],
                                   page_width = 600, page_height = 800 \<rparr>] \<rparr>"

definition demo_translated :: pdf_structure where
  "demo_translated =
     \<lparr> pages = [\<lparr> items = [textItem 10 20 100 12 (rev str_inter) 12,
                            box 0 100 100 50 (TableContent [] True)],
                  page_width = 600, page_height = 800 \<rparr>] \<rparr>"

section \<open>Properties of the auto-fit renderer\<close>

lemma estimatedLines_pos:
  "0 < containerW \<Longrightarrow> estimatedLines fullW containerW = Some \<lceil>fullW / (containerW * 0.95)\<rceil>"
  by (simp add: estimatedLines_def)

lemma sqrt_ratio_below_one:
  fixes h r :: real
  assumes "0 \<le> h" and "h * 1.1 < r"
  shows "sqrt (h / r) \<le> 1"
proof -
  have rpos: "0 < r" using assms by linarith
  have "h \<le> r" using assms by linarith
  then have "h / r \<le> 1" using rpos by (simp add: divide_le_eq)
  then show ?thesis by simp
qed

lemma scaled_max_bounds:
  fixes s f :: real
  assumes "0 \<le> s" and "f \<le> 1"
  shows "s * 0.6 \<le> max (s * f) (s * 0.6) \<and> max (s * f) (s * 0.6) \<le> s"
proof -
  have "s * f \<le> s * 1" using assms by (intro mult_left_mono) simp_all
  moreover have "s * 0.6 \<le> s" using assms by simp
  ultimately show ?thesis by simp
qed

lemma scaled_max_strict:
  fixes s f :: real
  assumes "0 < s" and "f < 1"
  shows "max (s * f) (s * 0.6) < s"
proof -
  have "s * f < s * 1" using assms by (intro mult_strict_left_mono) simp_all
  moreover have "s * 0.6 < s" using assms by simp
  ultimately show ?thesis by simp
qed

lemma sqrt_ratio_strictly_below_one:
  fixes h r :: real
  assumes "0 \<le> h" and "h * 1.1 < r"
  shows "sqrt (h / r) < 1"
proof -
  have rpos: "0 < r" using assms by linarith
  have "h < r" using assms by linarith
  then have "h / r < 1" using rpos by (simp add: divide_less_eq)
  then show ?thesis by simp
qed

text \<open>
  For a positive box width the width branch cannot fire: one estimated line means that
  the measured width is at most 95 percent of the box width.
\<close>

lemma single_line_fits_width:
  assumes "0 < containerW" and "estimatedLines fullW containerW = Some 1"
  shows "fullW \<le> containerW"
proof -
  have "\<lceil>fullW / (containerW * 0.95)\<rceil> = 1"
    using assms by (simp add: estimatedLines_def)
  then have "fullW / (containerW * 0.95) \<le> 1" by (simp add: ceiling_eq_iff)
  then have "fullW \<le> containerW * 0.95"
    using assms(1) by (simp add: divide_le_eq)
  then show ?thesis using assms(1) by simp
qed

text \<open>
  C7. With a positive box width and scale and non-negative box height and font size, the
  renderer takes the height branch exactly when the required height exceeds 1.1 times the
  box height, and then the font size is the nominal size times sqrt(boxHeight /
  requiredHeight), floored at 60 percent of the nominal size; otherwise it takes the
  width branch exactly when the estimated line count is 1 and the measured width exceeds
  the box width, and then the font size is the nominal size times boxWidth /
  measuredWidth with the same floor; otherwise the size is unchanged. The font is made
  strictly smaller exactly in these two branches (for a positive nominal size), and in
  every case the result lies between 60 percent of the nominal size and the nominal size.
\<close>

theorem autoFit_branches_and_bounds:
  assumes "0 < scale" and "0 \<le> fontSize t" and "0 < item_width it" and "0 \<le> item_height it"
  shows "\<exists>n req r.
           estimatedLines (fullTextWidth ctx stack scale t) (item_width it * scale) = Some n
         \<and> requiredHeight ctx stack scale spacing it t = Some req
         \<and> autoFitFontSize ctx stack scale spacing it t = Some r
         \<and> r = (if req > item_height it * scale * 1.1
                then max (scaledFontSize0 scale t * sqrt (item_height it * scale / req))
                         (scaledFontSize0 scale t * 0.6)
                else if n = 1 \<and> fullTextWidth ctx stack scale t > item_width it * scale
                then max (scaledFontSize0 scale t
                            * (item_width it * scale / fullTextWidth ctx stack scale t))
                         (scaledFontSize0 scale t * 0.6)
                else scaledFontSize0 scale t)
         \<and> (r < scaledFontSize0 scale t) =
             (0 < scaledFontSize0 scale t
              \<and> (req > item_height it * scale * 1.1
                 \<or> (n = 1 \<and> fullTextWidth ctx stack scale t > item_width it * scale)))
         \<and> scaledFontSize0 scale t * 0.6 \<le> r \<and> r \<le> scaledFontSize0 scale t"
proof -
  define s where "s = scaledFontSize0 scale t"
  define w where "w = item_width it * scale"
  define h where "h = item_height it * scale"
  define fw where "fw = fullTextWidth ctx stack scale t"
  define n where "n = \<lceil>fw / (w * 0.95)\<rceil>"
  define req where "req = real_of_int n * (s * spacing)"
  have wpos: "0 < w" using assms by (simp add: w_def)
  have hnn: "0 \<le> h" using assms by (simp add: h_def)
  have snn: "0 \<le> s" using assms by (simp add: s_def scaledFontSize0_def)
  have lines: "estimatedLines fw w = Some n"
    using wpos by (simp add: estimatedLines_pos n_def)
  have reqd: "requiredHeight ctx stack scale spacing it t = Some req"
    using lines by (simp add: requiredHeight_def req_def fw_def w_def s_def)
  define r where "r = (if req > h * 1.1 then max (s * sqrt (h / req)) (s * 0.6)
                       else if n = 1 \<and> fw > w then max (s * (w / fw)) (s * 0.6) else s)"
  have fit: "autoFitFontSize ctx stack scale spacing it t = Some r"
    using lines
    by (simp add: autoFitFontSize_def Let_def r_def req_def fw_def w_def s_def h_def)
  have bounds: "s * 0.6 \<le> r \<and> r \<le> s"
    and strict: "(r < s) = (0 < s \<and> (req > h * 1.1 \<or> (n = 1 \<and> fw > w)))"
  proof -
    consider (height) "req > h * 1.1"
      | (width) "\<not> req > h * 1.1" "n = 1 \<and> fw > w"
      | (keep) "\<not> req > h * 1.1" "\<not> (n = 1 \<and> fw > w)"
      by blast
    then have "(s * 0.6 \<le> r \<and> r \<le> s)
             \<and> (r < s) = (0 < s \<and> (req > h * 1.1 \<or> (n = 1 \<and> fw > w)))"
    proof cases
      case height
      have f: "sqrt (h / req) < 1"
        using hnn height by (intro sqrt_ratio_strictly_below_one) simp_all
      have req: "r = max (s * sqrt (h / req)) (s * 0.6)" using height by (simp add: r_def)
      have "s * 0.6 \<le> r \<and> r \<le> s"
        using scaled_max_bounds [OF snn less_imp_le [OF f]] req by simp
      moreover have "0 < s \<Longrightarrow> r < s" using scaled_max_strict [OF _ f] req by simp
      ultimately show ?thesis using height snn by auto
    next
      case width
      then have f: "w / fw < 1" using wpos by (simp add: divide_less_eq)
      have req: "r = max (s * (w / fw)) (s * 0.6)" using width by (simp add: r_def)
      have "s * 0.6 \<le> r \<and> r \<le> s"
        using scaled_max_bounds [OF snn less_imp_le [OF f]] req by simp
      moreover have "0 < s \<Longrightarrow> r < s" using scaled_max_strict [OF _ f] req by simp
      ultimately show ?thesis using width snn by auto
    next
      case keep
      then have "r = s" by (auto simp: r_def)
      then show ?thesis using keep snn by auto
    qed
    then show "s * 0.6 \<le> r \<and> r \<le> s"
      and "(r < s) = (0 < s \<and> (req > h * 1.1 \<or> (n = 1 \<and> fw > w)))" by blast+
  qed
  have main: "estimatedLines fw w = Some n
      \<and> requiredHeight ctx stack scale spacing it t = Some req
      \<and> autoFitFontSize ctx stack scale spacing it t = Some r
      \<and> r = (if req > h * 1.1 then max (s * sqrt (h / req)) (s * 0.6)
             else if n = 1 \<and> fw > w then max (s * (w / fw)) (s * 0.6) else s)
      \<and> (r < s) = (0 < s \<and> (req > h * 1.1 \<or> (n = 1 \<and> fw > w)))
      \<and> s * 0.6 \<le> r \<and> r \<le> s"
    by (intro conjI lines reqd fit r_def strict bounds [THEN conjunct1]
        bounds [THEN conjunct2])
  show ?thesis
    apply (rule exI [where x = n])
    apply (rule exI [where x = req])
    apply (rule exI [where x = r])
    apply (fold s_def w_def h_def fw_def)
    apply (rule main)
    done
qed

theorem autoFit_branches_and_bounds_witness:
  "(0::real) < 1 \<and> 0 \<le> fontSize demo_text \<and> 0 < item_width demo_box
   \<and> 0 \<le> item_height demo_box
   \<and> requiredHeight (Some demo_ctx) [] 1 2 demo_box demo_text = Some 25
   \<and> (\<exists>r. autoFitFontSize (Some demo_ctx) [] 1 2 demo_box demo_text = Some r
          \<and> r < 12.5 \<and> 12.5 * 0.6 \<le> r)"
proof -
  have h: "(0::real) < 1" "0 \<le> fontSize demo_text" "0 < item_width demo_box"
    "0 \<le> item_height demo_box"
    by (simp_all add: demo_text_def demo_box_def)
  have s: "scaledFontSize0 1 demo_text = 12.5"
    by (simp add: scaledFontSize0_def demo_text_def)
  have q: "requiredHeight (Some demo_ctx) [] 1 2 demo_box demo_text = Some 25"
    by (simp add: requiredHeight_def estimatedLines_def fullTextWidth_def
        measureTextWidth_def demo_ctx_def scaledFontSize0_def demo_text_def demo_box_def)
  from autoFit_branches_and_bounds [OF h, of "Some demo_ctx" "[]" 2]
  obtain n req r where a:
    "estimatedLines (fullTextWidth (Some demo_ctx) [] 1 demo_text) (item_width demo_box * 1)
       = Some n
     \<and> requiredHeight (Some demo_ctx) [] 1 2 demo_box demo_text = Some req
     \<and> autoFitFontSize (Some demo_ctx) [] 1 2 demo_box demo_text = Some r
     \<and> r = (if req > item_height demo_box * 1 * 1.1
            then max (scaledFontSize0 1 demo_text * sqrt (item_height demo_box * 1 / req))
                     (scaledFontSize0 1 demo_text * 0.6)
            else if n = 1 \<and> fullTextWidth (Some demo_ctx) [] 1 demo_text
                               > item_width demo_box * 1
            then max (scaledFontSize0 1 demo_text
                        * (item_width demo_box * 1 / fullTextWidth (Some demo_ctx) [] 1 demo_text))
                     (scaledFontSize0 1 demo_text * 0.6)
            else scaledFontSize0 1 demo_text)
     \<and> (r < scaledFontSize0 1 demo_text) =
         (0 < scaledFontSize0 1 demo_text
          \<and> (req > item_height demo_box * 1 * 1.1
             \<or> (n = 1 \<and> fullTextWidth (Some demo_ctx) [] 1 demo_text
                            > item_width demo_box * 1)))
     \<and> scaledFontSize0 1 demo_text * 0.6 \<le> r \<and> r \<le> scaledFontSize0 1 demo_text"
    by (elim exE) (rule that, assumption)
  have req: "req = 25" using a q by simp
  have fit: "autoFitFontSize (Some demo_ctx) [] 1 2 demo_box demo_text = Some r"
    using a by (elim conjE)
  have "(r < scaledFontSize0 1 demo_text) =
         (0 < scaledFontSize0 1 demo_text
          \<and> (req > item_height demo_box * 1 * 1.1
             \<or> (n = 1 \<and> fullTextWidth (Some demo_ctx) [] 1 demo_text
                            > item_width demo_box * 1)))"
    using a by (elim conjE)
  then have lt: "r < 12.5" unfolding s req by (simp add: demo_box_def)
  have "scaledFontSize0 1 demo_text * 0.6 \<le> r" using a by (elim conjE)
  then have ge: "12.5 * 0.6 \<le> r" unfolding s .
  show ?thesis using h q fit lt ge by blast
qed

text \<open>
  C8. For a fixed box of positive width, a fixed text and a fixed non-negative line
  spacing, and a text measurement that is non-negative and monotone in the font size,
  the estimated required height (the ceiling of measuredWidth / (boxWidth * 0.95), times
  the font size, times the line spacing) is monotone in the nominal font size: a smaller
  nominal size never gives a larger required height.
\<close>

theorem requiredHeight_monotone:
  assumes mono: "\<And>a b. a \<le> b \<Longrightarrow>
                   measureTextWidth mctx (item_text t) stack a (truthy (isBold t))
                   \<le> measureTextWidth mctx (item_text t) stack b (truthy (isBold t))"
    and nonneg: "\<And>a. 0 \<le> a \<Longrightarrow>
                   0 \<le> measureTextWidth mctx (item_text t) stack a (truthy (isBold t))"
    and "0 < scale" and "0 < item_width it" and "0 \<le> spacing"
    and "0 \<le> f1" and "f1 \<le> f2"
  shows "\<exists>h1 h2. requiredHeight mctx stack scale spacing it (t\<lparr>fontSize := f1\<rparr>) = Some h1
               \<and> requiredHeight mctx stack scale spacing it (t\<lparr>fontSize := f2\<rparr>) = Some h2
               \<and> h1 \<le> h2"
proof -
  define w where "w = item_width it * scale * 0.95"
  define m where "m = (\<lambda>a. measureTextWidth mctx (item_text t) stack a (truthy (isBold t)))"
  define n1 where "n1 = \<lceil>m (f1 * scale) / w\<rceil>"
  define n2 where "n2 = \<lceil>m (f2 * scale) / w\<rceil>"
  have wpos: "0 < w" using assms by (simp add: w_def)
  have sizes: "f1 * scale \<le> f2 * scale" "0 \<le> f1 * scale"
    using assms by (simp_all add: mult_right_mono)
  have "m (f1 * scale) \<le> m (f2 * scale)" unfolding m_def by (rule mono) (rule sizes)
  then have "m (f1 * scale) / w \<le> m (f2 * scale) / w"
    using wpos by (simp add: divide_right_mono)
  then have n12: "n1 \<le> n2" unfolding n1_def n2_def by (rule ceiling_mono)
  have "0 \<le> m (f1 * scale)" unfolding m_def by (rule nonneg) (rule sizes)
  then have "0 \<le> m (f1 * scale) / w" using wpos by simp
  then have "0 \<le> n1" unfolding n1_def by (simp add: zero_le_ceiling)
  then have n2nn: "0 \<le> n2" using n12 by simp
  have lo: "0 \<le> f1 * scale * spacing" using sizes assms by simp
  have up: "f1 * scale * spacing \<le> f2 * scale * spacing"
    using sizes assms by (simp add: mult_right_mono)
  have le: "real_of_int n1 * (f1 * scale * spacing) \<le> real_of_int n2 * (f2 * scale * spacing)"
    by (rule mult_mono) (use n12 n2nn lo up in simp_all)
  have nz: "item_width it \<noteq> 0" "scale \<noteq> 0" using assms by simp_all
  have r1: "requiredHeight mctx stack scale spacing it (t\<lparr>fontSize := f1\<rparr>)
              = Some (real_of_int n1 * (f1 * scale * spacing))"
    using nz
    by (simp add: requiredHeight_def estimatedLines_def fullTextWidth_def scaledFontSize0_def
        n1_def m_def w_def)
  have r2: "requiredHeight mctx stack scale spacing it (t\<lparr>fontSize := f2\<rparr>)
              = Some (real_of_int n2 * (f2 * scale * spacing))"
    using nz
    by (simp add: requiredHeight_def estimatedLines_def fullTextWidth_def scaledFontSize0_def
        n2_def m_def w_def)
  show ?thesis using r1 r2 le by simp
qed

theorem requiredHeight_monotone_witness:
  "requiredHeight (Some demo_ctx) [] 1 2 demo_box (demo_text\<lparr>fontSize := 12.5\<rparr>) = Some 25
   \<and> requiredHeight (Some demo_ctx) [] 1 2 demo_box (demo_text\<lparr>fontSize := 50\<rparr>) = Some 300
   \<and> (\<exists>h1 h2. requiredHeight (Some demo_ctx) [] 1 2 demo_box (demo_text\<lparr>fontSize := 12.5\<rparr>)
                  = Some h1
              \<and> requiredHeight (Some demo_ctx) [] 1 2 demo_box (demo_text\<lparr>fontSize := 50\<rparr>)
                  = Some h2
              \<and> h1 \<le> h2)"
proof -
  have mono: "\<And>a b. a \<le> b \<Longrightarrow>
      measureTextWidth (Some demo_ctx) (item_text demo_text) [] a (truthy (isBold demo_text))
      \<le> measureTextWidth (Some demo_ctx) (item_text demo_text) [] b (truthy (isBold demo_text))"
    by (simp add: measureTextWidth_def demo_ctx_def mult_left_mono)
  have nonneg: "\<And>a. 0 \<le> a \<Longrightarrow>
      0 \<le> measureTextWidth (Some demo_ctx) (item_text demo_text) [] a
             (truthy (isBold demo_text))"
    by (simp add: measureTextWidth_def demo_ctx_def)
  have h: "(0::real) < 1" "0 < item_width demo_box" "(0::real) \<le> 2" "(0::real) \<le> 12.5"
    "(12.5::real) \<le> 50"
    by (simp_all add: demo_box_def)
  have q1: "requiredHeight (Some demo_ctx) [] 1 2 demo_box (demo_text\<lparr>fontSize := 12.5\<rparr>)
              = Some 25"
    by (simp add: requiredHeight_def estimatedLines_def fullTextWidth_def
        measureTextWidth_def demo_ctx_def scaledFontSize0_def demo_text_def demo_box_def)
  have q2: "requiredHeight (Some demo_ctx) [] 1 2 demo_box (demo_text\<lparr>fontSize := 50\<rparr>)
              = Some 300"
    by (simp add: requiredHeight_def estimatedLines_def fullTextWidth_def
        measureTextWidth_def demo_ctx_def scaledFontSize0_def demo_text_def demo_box_def)
  show ?thesis
    using requiredHeight_monotone [of "Some demo_ctx" demo_text "[]" 1 demo_box 2 "12.5" 50,
        OF mono nonneg h] q1 q2
    by simp
qed


section \<open>Properties of the line-spacing statistics\<close>

lemma collectGaps_filter:
  "collectGaps ys = filter (\<lambda>g. 5 < g \<and> g < 300) (map (\<lambda>(a, b). \<bar>a - b\<bar>) (zip ys (tl ys)))"
  by (induction ys rule: collectGaps.induct) (auto simp: Let_def)

lemma map_of_bump:
  "map_of (bump k fr) = (map_of fr)(k \<mapsto> (case map_of fr k of None \<Rightarrow> 1 | Some c \<Rightarrow> c + 1))"
  by (induction fr) (auto simp: fun_eq_iff)

lemma keys_bump: "fst ` set (bump k fr) = insert k (fst ` set fr)"
proof (induction fr)
  case Nil show ?case by simp
next
  case (Cons e fr)
  obtain k' c where e: "e = (k', c)" by (cases e)
  show ?case using Cons.IH by (cases "k = k'") (auto simp: e)
qed

lemma distinct_bump: "distinct (map fst fr) \<Longrightarrow> distinct (map fst (bump k fr))"
proof (induction fr)
  case Nil show ?case by simp
next
  case (Cons e fr)
  obtain k' c where e: "e = (k', c)" by (cases e)
  show ?case using Cons by (cases "k = k'") (auto simp: e keys_bump)
qed

lemma counts_ok_bump: "counts_ok fr rs \<Longrightarrow> counts_ok (bump k fr) (rs @ [k])"
  by (auto simp: counts_ok_def distinct_bump map_of_bump)

lemma counts_ok_fold:
  "counts_ok fr rs \<Longrightarrow> counts_ok (fold (\<lambda>g frequency. bump (round g) frequency) gs fr) (rs @ map round gs)"
proof (induction gs arbitrary: fr rs)
  case Nil then show ?case by simp
next
  case (Cons g gs)
  from Cons.IH [OF counts_ok_bump [OF Cons.prems, of "round g"]]
  show ?case by simp
qed

lemma counts_ok_frequencyOf: "counts_ok (frequencyOf gaps) (map round gaps)"
  using counts_ok_fold [of "[]" "[]" gaps] by (simp add: frequencyOf_def counts_ok_def)


lemma entries_props:
  assumes "counts_ok fr rs"
  shows "sorted (map fst (entries fr))" and "distinct (map fst (entries fr))"
    and "set (entries fr) = {(k, c). c = count_list rs k \<and> 0 < c}"
proof -
  show "sorted (map fst (entries fr))" by (simp add: entries_def)
  have "mset (map fst (entries fr)) = mset (map fst fr)" by (simp add: entries_def)
  then show "distinct (map fst (entries fr))"
    using assms by (metis counts_ok_def mset_eq_imp_distinct_iff)
  have "set (entries fr) = set fr" by (simp add: entries_def)
  also have "\<dots> = {(k, c). map_of fr k = Some c}"
  proof -
    have "distinct (map fst fr)" using assms by (simp add: counts_ok_def)
    then show ?thesis by (auto simp: map_of_eq_Some_iff)
  qed
  also have "\<dots> = {(k, c). c = count_list rs k \<and> 0 < c}"
  proof -
    have "\<And>k. map_of fr k = (if count_list rs k = 0 then None else Some (count_list rs k))"
      using assms by (simp add: counts_ok_def)
    then show ?thesis by (auto split: if_splits)
  qed
  finally show "set (entries fr) = {(k, c). c = count_list rs k \<and> 0 < c}" .
qed

lemma mode_inv_step:
  assumes "mode_inv pre acc" and "\<forall>e' \<in> set pre. fst e' \<le> fst e"
  shows "mode_inv (pre @ [e]) (modeStep e acc)"
proof -
  obtain k c where e: "e = (k, c)" by (cases e)
  obtain m f where acc: "acc = (m, f)" by (cases acc)
  show ?thesis
  proof (cases "c > f")
    case True
    then show ?thesis using assms by (auto simp: mode_inv_def e acc)
  next
    case False
    then show ?thesis using assms by (fastforce simp: mode_inv_def e acc)
  qed
qed

lemma mode_inv_fold:
  "mode_inv pre acc \<Longrightarrow> sorted (map fst (pre @ es)) \<Longrightarrow> mode_inv (pre @ es) (fold modeStep es acc)"
proof (induction es arbitrary: pre acc)
  case Nil then show ?case by simp
next
  case (Cons e es)
  have "\<forall>e' \<in> set pre. fst e' \<le> fst e"
    using Cons.prems(2) by (auto simp: sorted_append)
  then have "mode_inv (pre @ [e]) (modeStep e acc)" using Cons.prems(1) by (rule mode_inv_step[rotated])
  from Cons.IH [OF this] Cons.prems(2) show ?case by simp
qed


lemma findMode_is_mode:
  assumes "gaps \<noteq> []"
  defines "rs \<equiv> map round gaps"
  defines "m \<equiv> findMode (entries (frequencyOf gaps))"
  shows "m \<in> set rs" and "\<And>k. count_list rs k \<le> count_list rs m"
    and "\<And>k. count_list rs k = count_list rs m \<Longrightarrow> m \<le> k"
proof -
  define E where "E = entries (frequencyOf gaps)"
  define acc where "acc = fold modeStep E (0, 0)"
  have ok: "counts_ok (frequencyOf gaps) rs"
    unfolding rs_def by (rule counts_ok_frequencyOf)
  have setE: "set E = {(k, c). c = count_list rs k \<and> 0 < c}"
    unfolding E_def by (rule entries_props(3) [OF ok])
  have "mode_inv ([] @ E) (fold modeStep E (0, 0))"
    by (rule mode_inv_fold) (simp_all add: mode_inv_def E_def entries_props(1) [OF ok])
  then have inv: "mode_inv E acc" by (simp add: acc_def)
  obtain r where "r \<in> set rs" using assms by (cases gaps) auto
  then have "0 < count_list rs r" using count_list_0_iff [of rs r] by auto
  then have rE: "(r, count_list rs r) \<in> set E" by (simp add: setE)
  then have "count_list rs r \<le> snd acc" using inv by (force simp: mode_inv_def)
  then have "acc \<noteq> (0, 0)" using \<open>0 < count_list rs r\<close> by auto
  then have accE: "acc \<in> set E"
    and least: "\<And>e. e \<in> set E \<Longrightarrow> snd e = snd acc \<Longrightarrow> fst acc \<le> fst e"
    and most: "\<And>e. e \<in> set E \<Longrightarrow> snd e \<le> snd acc"
    using inv by (auto simp: mode_inv_def)
  have m: "m = fst acc" by (simp add: m_def findMode_def acc_def E_def)
  have f: "snd acc = count_list rs m" "0 < count_list rs m"
    using accE by (auto simp: setE m)
  show "m \<in> set rs" using f(2) count_list_0_iff [of rs m] by auto
  show "count_list rs k \<le> count_list rs m" for k
  proof (cases "count_list rs k = 0")
    case True then show ?thesis by simp
  next
    case False
    then have "(k, count_list rs k) \<in> set E" by (simp add: setE)
    from most [OF this] show ?thesis by (simp add: f)
  qed
  show "m \<le> k" if "count_list rs k = count_list rs m" for k
  proof -
    have "(k, count_list rs k) \<in> set E" using that f(2) by (simp add: setE)
    from least [OF this] show ?thesis using that by (simp add: f m)
  qed
qed

lemma stats_no_gaps:
  "collectGaps ys = [] \<Longrightarrow>
     calculateLineSpacingStats ys = \<lparr> stdLineHeight = 14, paraGapThreshold = 20 \<rparr>"
  by (simp add: calculateLineSpacingStats_def)

lemma collectGaps_short: "length ys < 2 \<Longrightarrow> collectGaps ys = []"
  by (cases ys rule: collectGaps.cases) simp_all

lemma stats_with_gaps:
  assumes "collectGaps ys \<noteq> []"
  shows "calculateLineSpacingStats ys =
     (let mode = findMode (entries (frequencyOf (collectGaps ys)));
          std = (if mode > 8 then real_of_int mode
                 else sum_list (collectGaps ys) / real (length (collectGaps ys)))
      in \<lparr> stdLineHeight = std, paraGapThreshold = std * 1.5 \<rparr>)"
proof -
  have "\<not> length ys < 2" using assms collectGaps_short by blast
  then show ?thesis using assms by (simp add: calculateLineSpacingStats_def Let_def)
qed

text \<open>
  C2. For every list of line y-coordinates (distinct or not): the surviving gaps are the
  consecutive absolute gaps strictly between 5 and 300; when some gap survives,
  stdLineHeight is the mode m of the rounded surviving gaps (a rounded gap of highest
  frequency, the smallest one on a tie) if m exceeds 8 and the arithmetic mean of the
  surviving gaps otherwise, and paraGapThreshold is stdLineHeight times 1.5; the result is
  the default pair (14, 20) exactly when no gap survives; and the input
  [100, 114, 140, 154] gives stdLineHeight 14 and paraGapThreshold 21.
\<close>

theorem calculateLineSpacingStats_spec:
  "collectGaps ys =
     filter (\<lambda>g. 5 < g \<and> g < 300) (map (\<lambda>(a, b). \<bar>a - b\<bar>) (zip ys (tl ys)))
   \<and> (collectGaps ys \<noteq> [] \<longrightarrow>
        (\<exists>m. m \<in> set (map round (collectGaps ys))
           \<and> (\<forall>k. count_list (map round (collectGaps ys)) k
                    \<le> count_list (map round (collectGaps ys)) m)
           \<and> (\<forall>k. count_list (map round (collectGaps ys)) k
                      = count_list (map round (collectGaps ys)) m \<longrightarrow> m \<le> k)
           \<and> stdLineHeight (calculateLineSpacingStats ys) =
               (if m > 8 then real_of_int m
                else sum_list (collectGaps ys) / real (length (collectGaps ys)))))
   \<and> (collectGaps ys \<noteq> [] \<longrightarrow>
        paraGapThreshold (calculateLineSpacingStats ys)
          = stdLineHeight (calculateLineSpacingStats ys) * 1.5)
   \<and> ((calculateLineSpacingStats ys = \<lparr> stdLineHeight = 14, paraGapThreshold = 20 \<rparr>)
        = (collectGaps ys = []))
   \<and> calculateLineSpacingStats [100, 114, 140, 154]
        = \<lparr> stdLineHeight = 14, paraGapThreshold = 21 \<rparr>"
proof (intro conjI impI)
  show "collectGaps ys =
     filter (\<lambda>g. 5 < g \<and> g < 300) (map (\<lambda>(a, b). \<bar>a - b\<bar>) (zip ys (tl ys)))"
    by (rule collectGaps_filter)
next
  assume ne: "collectGaps ys \<noteq> []"
  define m where "m = findMode (entries (frequencyOf (collectGaps ys)))"
  have "stdLineHeight (calculateLineSpacingStats ys) =
               (if m > 8 then real_of_int m
                else sum_list (collectGaps ys) / real (length (collectGaps ys)))"
    by (simp add: stats_with_gaps [OF ne] Let_def m_def)
  then show "\<exists>m. m \<in> set (map round (collectGaps ys))
           \<and> (\<forall>k. count_list (map round (collectGaps ys)) k
                    \<le> count_list (map round (collectGaps ys)) m)
           \<and> (\<forall>k. count_list (map round (collectGaps ys)) k
                      = count_list (map round (collectGaps ys)) m \<longrightarrow> m \<le> k)
           \<and> stdLineHeight (calculateLineSpacingStats ys) =
               (if m > 8 then real_of_int m
                else sum_list (collectGaps ys) / real (length (collectGaps ys)))"
    using findMode_is_mode [OF ne] unfolding m_def [symmetric]
    by (intro exI [of _ m]) blast
next
  assume ne: "collectGaps ys \<noteq> []"
  show "paraGapThreshold (calculateLineSpacingStats ys)
          = stdLineHeight (calculateLineSpacingStats ys) * 1.5"
    by (simp add: stats_with_gaps [OF ne] Let_def)
next
  show "(calculateLineSpacingStats ys = \<lparr> stdLineHeight = 14, paraGapThreshold = 20 \<rparr>)
        = (collectGaps ys = [])"
  proof (cases "collectGaps ys = []")
    case True
    then show ?thesis by (simp add: stats_no_gaps)
  next
    case False
    have "paraGapThreshold (calculateLineSpacingStats ys)
          = stdLineHeight (calculateLineSpacingStats ys) * 1.5"
      by (simp add: stats_with_gaps [OF False] Let_def)
    then have "calculateLineSpacingStats ys \<noteq> \<lparr> stdLineHeight = 14, paraGapThreshold = 20 \<rparr>"
      by auto
    then show ?thesis using False by simp
  qed
next
  show "calculateLineSpacingStats [100, 114, 140, 154]
        = \<lparr> stdLineHeight = 14, paraGapThreshold = 21 \<rparr>"
    by (simp add: calculateLineSpacingStats_def frequencyOf_def entries_def findMode_def)
qed

theorem calculateLineSpacingStats_spec_witness:
  "collectGaps [100, 106, 112.4, 154] = [6, 6.4, 41.6]
   \<and> stdLineHeight (calculateLineSpacingStats [100, 106, 112.4, 154]) = 18
   \<and> paraGapThreshold (calculateLineSpacingStats [100, 106, 112.4, 154]) = 27
   \<and> collectGaps [100, 103, 500] = []
   \<and> calculateLineSpacingStats [100, 103, 500] = \<lparr> stdLineHeight = 14, paraGapThreshold = 20 \<rparr>"
proof -
  have g: "collectGaps [100, 106, 112.4, 154] = [6, 6.4, 41.6]" by simp
  have s: "stdLineHeight (calculateLineSpacingStats [100, 106, 112.4, 154]) = 18"
    by (simp add: calculateLineSpacingStats_def frequencyOf_def entries_def findMode_def
        round_def)
  have e: "collectGaps [100, 103, 500] = []" by simp
  have ne: "collectGaps [100, 106, 112.4, 154] \<noteq> []" by simp
  have "paraGapThreshold (calculateLineSpacingStats [100, 106, 112.4, 154])
          = stdLineHeight (calculateLineSpacingStats [100, 106, 112.4, 154]) * 1.5"
    using calculateLineSpacingStats_spec [of "[100, 106, 112.4, 154]"] ne by blast
  then have p: "paraGapThreshold (calculateLineSpacingStats [100, 106, 112.4, 154]) = 27"
    unfolding s by simp
  have "(calculateLineSpacingStats [100, 103, 500]
           = \<lparr> stdLineHeight = 14, paraGapThreshold = 20 \<rparr>) = (collectGaps [100, 103, 500] = [])"
    using calculateLineSpacingStats_spec [of "[100, 103, 500]"] by blast
  then show ?thesis using g s p e by simp
qed


section \<open>Properties of the reading-order reconstruction\<close>

lemma mset_insertBy: "mset (insertBy cmp a bs) = add_mset a (mset bs)"
  by (induction bs) auto

lemma mset_fold_insertBy: "mset (fold (insertBy cmp) xs acc) = mset xs + mset acc"
  by (induction xs arbitrary: acc) (auto simp: mset_insertBy)

lemma mset_sortBy: "mset (sortBy cmp xs) = mset xs"
  by (simp add: sortBy_def mset_fold_insertBy)

lemma mergeIntervals_ends:
  "m \<in> set (mergeIntervals current rest) \<Longrightarrow>
     fst m \<in> fst ` set (current # rest) \<and> snd m \<in> snd ` set (current # rest)"
proof (induction current rest rule: mergeIntervals.induct)
  case (1 current)
  then show ?case by simp
next
  case (2 current nxt rest)
  show ?case
  proof (cases "fst nxt < snd current - 0.1")
    case True
    with 2 have "fst m \<in> fst ` set ((fst current, max (snd current) (snd nxt)) # rest)
        \<and> snd m \<in> snd ` set ((fst current, max (snd current) (snd nxt)) # rest)"
      by simp
    then show ?thesis by (auto simp: max_def split: if_splits)
  next
    case False
    with 2 show ?thesis by auto
  qed
qed

lemma bestGapLoop_Some:
  "bestGapLoop minSize ms best maxGap = Some g \<Longrightarrow>
     best = Some g \<or> (\<exists>a \<in> set ms. \<exists>b \<in> set ms. g = (snd a + fst b) / 2 \<and> fst b - snd a > minSize)"
proof (induction minSize ms best maxGap rule: bestGapLoop.induct)
  case (1 minSize a b rest bestGap maxGapSize)
  show ?case
  proof (cases "fst b - snd a > minSize \<and> fst b - snd a > maxGapSize")
    case True
    with 1 show ?thesis by (auto simp: Let_def)
  next
    case False
    with 1 show ?thesis by (auto simp: Let_def)
  qed
qed simp_all


lemma findSplit_separates:
  assumes "findSplit list ax = Some g"
  shows "\<exists>a \<in> set list. \<exists>b \<in> set list.
           snd (intervalOf ax a) < g \<and> g < fst (intervalOf ax b)"
proof -
  define C where "C = getContributors list"
  define minSize where "minSize = (case ax of AxisX \<Rightarrow> MIN_COL_GAP | AxisY \<Rightarrow> MIN_ROW_GAP)"
  have minpos: "0 < minSize"
    by (cases ax) (simp_all add: minSize_def MIN_COL_GAP_def MIN_ROW_GAP_def)
  from assms obtain current rest where
    sorted: "sort_key fst (map (intervalOf ax) C) = current # rest"
    and best: "bestGapLoop minSize (mergeIntervals current rest) None 0 = Some g"
    by (auto simp: findSplit_def Let_def C_def minSize_def split: if_splits list.splits)
  from bestGapLoop_Some [OF best] obtain a b where
    ab: "a \<in> set (mergeIntervals current rest)" "b \<in> set (mergeIntervals current rest)"
    "g = (snd a + fst b) / 2" "fst b - snd a > minSize"
    by auto
  have inputs: "set (current # rest) = intervalOf ax ` set C"
    using sorted by (metis set_map set_sort)
  from mergeIntervals_ends [OF ab(1)] inputs obtain ia where
    ia: "ia \<in> set C" "snd (intervalOf ax ia) = snd a" by (metis (no_types, lifting) imageE)
  from mergeIntervals_ends [OF ab(2)] inputs obtain ib where
    ib: "ib \<in> set C" "fst (intervalOf ax ib) = fst b" by (metis (no_types, lifting) imageE)
  have "snd a < g" "g < fst b" using ab(3,4) minpos by (simp_all add: field_simps)
  moreover have "set C \<subseteq> set list" by (auto simp: C_def getContributors_def)
  ultimately show ?thesis using ia ib by (metis subsetD)
qed

lemma filter_strictly_shorter:
  assumes "a \<in> set list" and "\<not> P a"
  shows "length (filter P list) < length list"
  using assms by (rule length_filter_less)

lemma splitX_halves_shorter:
  assumes "findSplit list AxisX = Some g" and "\<forall>i \<in> set list. 0 \<le> item_width i"
  shows "length (filter (\<lambda>i. centerX i < g) list) < length list"
    and "length (filter (\<lambda>i. centerX i \<ge> g) list) < length list"
proof -
  from findSplit_separates [OF assms(1)] obtain a b where
    ab: "a \<in> set list" "b \<in> set list"
    "item_x a + item_width a < g" "g < item_x b"
    by (auto simp: intervalOf_def)
  have "centerX a < g" using ab(1,3) assms(2) by (auto simp: centerX_def dest!: bspec)
  moreover have "g < centerX b" using ab(2,4) assms(2) by (auto simp: centerX_def dest!: bspec)
  ultimately have out: "\<not> centerX b < g" "\<not> centerX a \<ge> g" by simp_all
  show "length (filter (\<lambda>i. centerX i < g) list) < length list"
    using ab(2) out(1) by (rule filter_strictly_shorter)
  show "length (filter (\<lambda>i. centerX i \<ge> g) list) < length list"
    using ab(1) out(2) by (rule filter_strictly_shorter)
qed

lemma splitY_halves_shorter:
  assumes "findSplit list AxisY = Some g" and "\<forall>i \<in> set list. 0 \<le> item_height i"
  shows "length (filter (\<lambda>i. centerY i < g) list) < length list"
    and "length (filter (\<lambda>i. centerY i \<ge> g) list) < length list"
proof -
  from findSplit_separates [OF assms(1)] obtain a b where
    ab: "a \<in> set list" "b \<in> set list"
    "item_y a + item_height a < g" "g < item_y b"
    by (auto simp: intervalOf_def)
  have "centerY a < g" using ab(1,3) assms(2) by (auto simp: centerY_def dest!: bspec)
  moreover have "g < centerY b" using ab(2,4) assms(2) by (auto simp: centerY_def dest!: bspec)
  ultimately have out: "\<not> centerY b < g" "\<not> centerY a \<ge> g" by simp_all
  show "length (filter (\<lambda>i. centerY i < g) list) < length list"
    using ab(2) out(1) by (rule filter_strictly_shorter)
  show "length (filter (\<lambda>i. centerY i \<ge> g) list) < length list"
    using ab(1) out(2) by (rule filter_strictly_shorter)
qed

lemma mset_halves:
  fixes g :: real
  shows "mset (filter (\<lambda>i. f i < g) list) + mset (filter (\<lambda>i. f i \<ge> g) list) = mset list"
  by (induction list) auto

lemma recursiveOrder_permutes:
  assumes "\<forall>i \<in> set list. 0 \<le> item_width i \<and> 0 \<le> item_height i"
  shows "\<exists>out. recursiveOrder list = Some out \<and> mset out = mset list"
  using assms
proof (induction "length list" arbitrary: list rule: less_induct)
  case less
  have geom: "\<forall>i \<in> set list. 0 \<le> item_width i" "\<forall>i \<in> set list. 0 \<le> item_height i"
    using less.prems by auto
  have sub: "\<exists>out. recursiveOrder (filter P list) = Some out \<and> mset out = mset (filter P list)"
    if "length (filter P list) < length list" for P
    using less.hyps [OF that] less.prems by auto
  show ?case
  proof (cases "length list \<le> 1")
    case True
    then show ?thesis by (subst recursiveOrder.simps) simp
  next
    case long: False
    show ?thesis
    proof (cases "findSplit list AxisX")
      case (Some g)
      from sub [OF splitX_halves_shorter(1) [OF Some geom(1)]] obtain l where
        l: "recursiveOrder (filter (\<lambda>i. centerX i < g) list) = Some l"
        "mset l = mset (filter (\<lambda>i. centerX i < g) list)" by blast
      from sub [OF splitX_halves_shorter(2) [OF Some geom(1)]] obtain r where
        r: "recursiveOrder (filter (\<lambda>i. centerX i \<ge> g) list) = Some r"
        "mset r = mset (filter (\<lambda>i. centerX i \<ge> g) list)" by blast
      have "recursiveOrder list = Some (l @ r)"
        using long Some l(1) r(1) by (subst recursiveOrder.simps) simp
      moreover have "mset (l @ r) = mset list"
        using l(2) r(2) mset_halves [of centerX g list] by simp
      ultimately show ?thesis by blast
    next
      case noX: None
      show ?thesis
      proof (cases "findSplit list AxisY")
        case (Some g)
        from sub [OF splitY_halves_shorter(1) [OF Some geom(2)]] obtain l where
          l: "recursiveOrder (filter (\<lambda>i. centerY i < g) list) = Some l"
          "mset l = mset (filter (\<lambda>i. centerY i < g) list)" by blast
        from sub [OF splitY_halves_shorter(2) [OF Some geom(2)]] obtain r where
          r: "recursiveOrder (filter (\<lambda>i. centerY i \<ge> g) list) = Some r"
          "mset r = mset (filter (\<lambda>i. centerY i \<ge> g) list)" by blast
        have "recursiveOrder list = Some (l @ r)"
          using long noX Some l(1) r(1) by (subst recursiveOrder.simps) simp
        moreover have "mset (l @ r) = mset list"
          using l(2) r(2) mset_halves [of centerY g list] by simp
        ultimately show ?thesis by blast
      next
        case None
        have "recursiveOrder list = Some (sortBy compareAtomic list)"
          using long noX None by (subst recursiveOrder.simps) simp
        then show ?thesis by (simp add: mset_sortBy)
      qed
    qed
  qed
qed


lemma recursiveOrder_short: "length list \<le> 1 \<Longrightarrow> recursiveOrder list = Some list"
  by (subst recursiveOrder.simps) simp

lemma recursiveOrder_splitX:
  "1 < length list \<Longrightarrow> findSplit list AxisX = Some g \<Longrightarrow>
   recursiveOrder list =
     Option.bind (recursiveOrder (filter (\<lambda>i. centerX i < g) list)) (\<lambda>left.
     Option.bind (recursiveOrder (filter (\<lambda>i. centerX i \<ge> g) list)) (\<lambda>right.
       Some (left @ right)))"
  by (subst recursiveOrder.simps) simp

lemma recursiveOrder_splitY:
  "1 < length list \<Longrightarrow> findSplit list AxisX = None \<Longrightarrow> findSplit list AxisY = Some g \<Longrightarrow>
   recursiveOrder list =
     Option.bind (recursiveOrder (filter (\<lambda>i. centerY i < g) list)) (\<lambda>top.
     Option.bind (recursiveOrder (filter (\<lambda>i. centerY i \<ge> g) list)) (\<lambda>bottom.
       Some (top @ bottom)))"
  by (subst recursiveOrder.simps) simp

lemma recursiveOrder_atomic:
  "1 < length list \<Longrightarrow> findSplit list AxisX = None \<Longrightarrow> findSplit list AxisY = None \<Longrightarrow>
   recursiveOrder list = Some (sortBy compareAtomic list)"
  by (subst recursiveOrder.simps) simp

lemma findSplit_few: "length (getContributors list) < 2 \<Longrightarrow> findSplit list ax = None"
  by (simp add: findSplit_def)

lemma contributors_pair:
  "getContributors [a, b] =
    (if content_type (content a) = TypePath then [] else [a])
    @ (if content_type (content b) = TypePath then [] else [b])"
  by (cases "content a"; cases "content b") (simp_all add: getContributors_def type_of_def)

lemma findSplit_pair:
  assumes "content_type (content a) \<noteq> TypePath" and "content_type (content b) \<noteq> TypePath"
    and "fst (intervalOf ax a) < fst (intervalOf ax b)"
  shows "findSplit [a, b] ax =
     bestGapLoop (case ax of AxisX \<Rightarrow> MIN_COL_GAP | AxisY \<Rightarrow> MIN_ROW_GAP)
       (mergeIntervals (intervalOf ax a) [intervalOf ax b]) None 0"
    and "findSplit [b, a] ax =
     bestGapLoop (case ax of AxisX \<Rightarrow> MIN_COL_GAP | AxisY \<Rightarrow> MIN_ROW_GAP)
       (mergeIntervals (intervalOf ax a) [intervalOf ax b]) None 0"
  using assms by (auto simp: findSplit_def contributors_pair)

lemma sortBy_pair:
  "sortBy cmp [a, b] = (if cmp b a < 0 then [b, a] else [a, b])"
  by (simp add: sortBy_def)

lemma pair_columns:
  fixes a b :: "'a item_scheme"
  assumes "item_x a + item_width a + 14 < item_x b" and "0 \<le> item_width a" and "0 \<le> item_width b"
    and "\<bar>item_y a - item_y b\<bar> \<le> 6"
  shows "recursiveOrder [a, b] = Some [a, b]" and "recursiveOrder [b, a] = Some [a, b]"
proof -
  have order: "fst (intervalOf AxisX a) < fst (intervalOf AxisX b)"
    using assms by (simp add: intervalOf_def)
  have both: "recursiveOrder [a, b] = Some [a, b] \<and> recursiveOrder [b, a] = Some [a, b]"
  proof (cases "content_type (content a) \<noteq> TypePath \<and> content_type (content b) \<noteq> TypePath")
    case True
    define g where "g = (item_x a + item_width a + item_x b) / 2"
    have s1: "findSplit [a, b] AxisX = Some g" and s2: "findSplit [b, a] AxisX = Some g"
      using assms True
      by (simp_all add: findSplit_pair [OF _ _ order] intervalOf_def MIN_COL_GAP_def g_def)
    have ca: "centerX a < g" and cb: "\<not> centerX b < g"
      using assms by (simp_all add: centerX_def g_def field_simps)
    show ?thesis
      using ca cb
      by (simp add: recursiveOrder_splitX [OF _ s1] recursiveOrder_splitX [OF _ s2]
          recursiveOrder_short not_less)
  next
    case False
    then have few: "length (getContributors [a, b]) < 2" "length (getContributors [b, a]) < 2"
      by (auto simp: contributors_pair)
    have cmp: "\<not> compareAtomic b a < 0" "compareAtomic a b < 0"
      using assms by (simp_all add: compareAtomic_def abs_minus_commute)
    show ?thesis
      using cmp
      by (simp add: recursiveOrder_atomic findSplit_few [OF few(1)] findSplit_few [OF few(2)]
          sortBy_pair)
  qed
  then show "recursiveOrder [a, b] = Some [a, b]" and "recursiveOrder [b, a] = Some [a, b]"
    by simp_all
qed


lemma findSplit_pair_none:
  assumes "fst (intervalOf ax b) - snd (intervalOf ax a) \<le> 6"
    and "fst (intervalOf ax a) - snd (intervalOf ax b) \<le> 6"
  shows "findSplit [a, b] ax = None"
proof (cases "content_type (content a) \<noteq> TypePath \<and> content_type (content b) \<noteq> TypePath")
  case True
  then show ?thesis
    using assms
    by (cases ax) (auto simp: findSplit_def contributors_pair MIN_COL_GAP_def MIN_ROW_GAP_def)
next
  case False
  then have "length (getContributors [a, b]) < 2" by (auto simp: contributors_pair)
  then show ?thesis by (rule findSplit_few)
qed

lemma pair_rows:
  fixes a b :: "'a item_scheme"
  assumes "item_y a + item_height a + 6 < item_y b" and "0 \<le> item_height a" and "0 \<le> item_height b"
    and "item_x b - (item_x a + item_width a) \<le> 6" and "item_x a - (item_x b + item_width b) \<le> 6"
  shows "recursiveOrder [a, b] = Some [a, b]" and "recursiveOrder [b, a] = Some [a, b]"
proof -
  have order: "fst (intervalOf AxisY a) < fst (intervalOf AxisY b)"
    using assms by (simp add: intervalOf_def)
  have nox: "findSplit [a, b] AxisX = None" "findSplit [b, a] AxisX = None"
    using assms by (simp_all add: findSplit_pair_none intervalOf_def)
  have both: "recursiveOrder [a, b] = Some [a, b] \<and> recursiveOrder [b, a] = Some [a, b]"
  proof (cases "content_type (content a) \<noteq> TypePath \<and> content_type (content b) \<noteq> TypePath")
    case True
    define g where "g = (item_y a + item_height a + item_y b) / 2"
    have s1: "findSplit [a, b] AxisY = Some g" and s2: "findSplit [b, a] AxisY = Some g"
      using assms True
      by (simp_all add: findSplit_pair [OF _ _ order] intervalOf_def MIN_ROW_GAP_def g_def)
    have ca: "centerY a < g" and cb: "\<not> centerY b < g"
      using assms by (simp_all add: centerY_def g_def field_simps)
    show ?thesis
      using ca cb
      by (simp add: recursiveOrder_splitY [OF _ nox(1) s1] recursiveOrder_splitY [OF _ nox(2) s2]
          recursiveOrder_short not_less)
  next
    case False
    then have few: "length (getContributors [a, b]) < 2" "length (getContributors [b, a]) < 2"
      by (auto simp: contributors_pair)
    have cmp: "\<not> compareAtomic b a < 0" "compareAtomic a b < 0"
      using assms by (simp_all add: compareAtomic_def)
    show ?thesis
      using cmp
      by (simp add: recursiveOrder_atomic findSplit_few [OF few(1)] findSplit_few [OF few(2)]
          sortBy_pair)
  qed
  then show "recursiveOrder [a, b] = Some [a, b]" and "recursiveOrder [b, a] = Some [a, b]"
    by simp_all
qed

lemma pair_column_priority:
  fixes a b :: "'a item_scheme"
  assumes "item_x a + item_width a + 14 < item_x b" and "0 \<le> item_width a" and "0 \<le> item_width b"
    and "content_type (content a) \<noteq> TypePath" and "content_type (content b) \<noteq> TypePath"
  shows "recursiveOrder [a, b] = Some [a, b]" and "recursiveOrder [b, a] = Some [a, b]"
proof -
  have order: "fst (intervalOf AxisX a) < fst (intervalOf AxisX b)"
    using assms by (simp add: intervalOf_def)
  define g where "g = (item_x a + item_width a + item_x b) / 2"
  have s1: "findSplit [a, b] AxisX = Some g" and s2: "findSplit [b, a] AxisX = Some g"
    using assms
    by (simp_all add: findSplit_pair [OF _ _ order] intervalOf_def MIN_COL_GAP_def g_def)
  have ca: "centerX a < g" and cb: "\<not> centerX b < g"
    using assms by (simp_all add: centerX_def g_def field_simps)
  show "recursiveOrder [a, b] = Some [a, b]" and "recursiveOrder [b, a] = Some [a, b]"
    using ca cb
    by (simp_all add: recursiveOrder_splitX [OF _ s1] recursiveOrder_splitX [OF _ s2]
        recursiveOrder_short not_less)
qed

text \<open>
  C5. The x-axis split is tried first: whenever a list of more than one item has an
  x-split, the result is the reordered left half followed by the reordered right half,
  whatever a y-split would give. The two items {x:0, width:100, y:0, height:10} and
  {x:150, width:100, y:0, height:10} come out as [left, right] in either input order
  and for any item types; two stacked items with the same x-extent and a y-gap of 50
  come out as [top, bottom]; and two text items placed diagonally, for which a y-split
  exists as well, come out column first.
\<close>

theorem x_split_before_y_split:
  "(1 < length list \<and> findSplit list AxisX = Some g \<longrightarrow>
      recursiveOrder list =
        Option.bind (recursiveOrder (filter (\<lambda>i. centerX i < g) list)) (\<lambda>left.
        Option.bind (recursiveOrder (filter (\<lambda>i. centerX i \<ge> g) list)) (\<lambda>right.
          Some (left @ right))))
   \<and> reorderItemsByReadingFlow [box 0 0 100 10 c1, box 150 0 100 10 c2]
       = Some [box 0 0 100 10 c1, box 150 0 100 10 c2]
   \<and> reorderItemsByReadingFlow [box 150 0 100 10 c2, box 0 0 100 10 c1]
       = Some [box 0 0 100 10 c1, box 150 0 100 10 c2]
   \<and> reorderItemsByReadingFlow [box 0 0 100 10 c1, box 0 60 100 10 c2]
       = Some [box 0 0 100 10 c1, box 0 60 100 10 c2]
   \<and> reorderItemsByReadingFlow [box 0 60 100 10 c2, box 0 0 100 10 c1]
       = Some [box 0 0 100 10 c1, box 0 60 100 10 c2]
   \<and> findSplit [box 150 0 100 10 (TextContent t2), box 0 100 100 10 (TextContent t1)] AxisY
       = Some 55
   \<and> reorderItemsByReadingFlow
         [box 150 0 100 10 (TextContent t2), box 0 100 100 10 (TextContent t1)]
       = Some [box 0 100 100 10 (TextContent t1), box 150 0 100 10 (TextContent t2)]"
proof (intro conjI impI)
  assume "1 < length list \<and> findSplit list AxisX = Some g"
  then show "recursiveOrder list =
        Option.bind (recursiveOrder (filter (\<lambda>i. centerX i < g) list)) (\<lambda>left.
        Option.bind (recursiveOrder (filter (\<lambda>i. centerX i \<ge> g) list)) (\<lambda>right.
          Some (left @ right)))"
    by (simp add: recursiveOrder_splitX)
next
  show "reorderItemsByReadingFlow [box 0 0 100 10 c1, box 150 0 100 10 c2]
       = Some [box 0 0 100 10 c1, box 150 0 100 10 c2]"
    unfolding reorderItemsByReadingFlow_def by (rule pair_columns) (simp_all add: box_def)
next
  show "reorderItemsByReadingFlow [box 150 0 100 10 c2, box 0 0 100 10 c1]
       = Some [box 0 0 100 10 c1, box 150 0 100 10 c2]"
    unfolding reorderItemsByReadingFlow_def by (rule pair_columns) (simp_all add: box_def)
next
  show "reorderItemsByReadingFlow [box 0 0 100 10 c1, box 0 60 100 10 c2]
       = Some [box 0 0 100 10 c1, box 0 60 100 10 c2]"
    unfolding reorderItemsByReadingFlow_def by (rule pair_rows) (simp_all add: box_def)
next
  show "reorderItemsByReadingFlow [box 0 60 100 10 c2, box 0 0 100 10 c1]
       = Some [box 0 0 100 10 c1, box 0 60 100 10 c2]"
    unfolding reorderItemsByReadingFlow_def by (rule pair_rows) (simp_all add: box_def)
next
  show "findSplit [box 150 0 100 10 (TextContent t2), box 0 100 100 10 (TextContent t1)] AxisY
       = Some 55"
    by (simp add: findSplit_def contributors_pair intervalOf_def MIN_ROW_GAP_def box_def)
next
  show "reorderItemsByReadingFlow
         [box 150 0 100 10 (TextContent t2), box 0 100 100 10 (TextContent t1)]
       = Some [box 0 100 100 10 (TextContent t1), box 150 0 100 10 (TextContent t2)]"
    unfolding reorderItemsByReadingFlow_def
    by (rule pair_column_priority) (simp_all add: box_def)
qed

theorem x_split_before_y_split_witness:
  "1 < length [box 150 0 100 10 (TextContent demo_text), box 0 100 100 10 (TextContent demo_text)]
   \<and> findSplit [box 150 0 100 10 (TextContent demo_text),
                 box 0 100 100 10 (TextContent demo_text)] AxisX = Some 125
   \<and> recursiveOrder [box 150 0 100 10 (TextContent demo_text),
                      box 0 100 100 10 (TextContent demo_text)]
       = Some [box 0 100 100 10 (TextContent demo_text),
               box 150 0 100 10 (TextContent demo_text)]"
proof -
  define diag :: "item list" where
    "diag = [box 150 0 100 10 (TextContent demo_text), box 0 100 100 10 (TextContent demo_text)]"
  have len: "1 < length diag" by (simp add: diag_def)
  have sx: "findSplit diag AxisX = Some 125"
    by (simp add: diag_def findSplit_def contributors_pair intervalOf_def MIN_COL_GAP_def
        box_def)
  have l: "filter (\<lambda>i. centerX i < 125) diag = [box 0 100 100 10 (TextContent demo_text)]"
    and r: "filter (\<lambda>i. centerX i \<ge> 125) diag = [box 150 0 100 10 (TextContent demo_text)]"
    by (simp_all add: diag_def centerX_def box_def)
  have "recursiveOrder diag =
        Option.bind (recursiveOrder (filter (\<lambda>i. centerX i < 125) diag)) (\<lambda>left.
        Option.bind (recursiveOrder (filter (\<lambda>i. centerX i \<ge> 125) diag)) (\<lambda>right.
          Some (left @ right)))"
    using x_split_before_y_split [of diag 125] len sx by blast
  then have "recursiveOrder diag
       = Some [box 0 100 100 10 (TextContent demo_text),
               box 150 0 100 10 (TextContent demo_text)]"
    by (simp add: l r recursiveOrder_short)
  then show ?thesis using len sx unfolding diag_def by blast
qed

text \<open>
  C1. For every list of items of non-negative width and height (the geometry of the data
  model), reorderItemsByReadingFlow returns, and its output is a permutation of the
  input: the same multiset of items, none dropped and none duplicated. The items may
  carry any further fields, such as an identity.
\<close>

theorem reorder_is_permutation:
  assumes "\<forall>i \<in> set list. 0 \<le> item_width i \<and> 0 \<le> item_height i"
  shows "\<exists>out. reorderItemsByReadingFlow list = Some out \<and> mset out = mset list"
  unfolding reorderItemsByReadingFlow_def using assms by (rule recursiveOrder_permutes)

theorem reorder_is_permutation_witness:
  "list_all (\<lambda>i. 0 \<le> item_width i \<and> 0 \<le> item_height i) demo_page
   \<and> (\<exists>out. reorderItemsByReadingFlow demo_page = Some out \<and> mset out = mset demo_page)"
proof -
  have h: "\<forall>i \<in> set demo_page. 0 \<le> item_width i \<and> 0 \<le> item_height i"
    by (simp add: demo_page_def box_def)
  from reorder_is_permutation [OF h] h show ?thesis by (simp add: list_all_iff)
qed

text \<open>The order computed for the example page: the left column top-down, then the right.\<close>

lemma demo_page_order:
  "reorderItemsByReadingFlow demo_page =
     Some [box 0 0 100 10 (ImageContent []), box 0 100 100 10 (TextContent demo_text),
           box 150 0 100 10 (TextContent demo_text)]"
proof -
  have sx: "findSplit demo_page AxisX = Some 125"
    by (simp add: demo_page_def findSplit_def getContributors_def type_of_def intervalOf_def
        MIN_COL_GAP_def box_def)
  have l: "filter (\<lambda>i. centerX i < 125) demo_page
            = [box 0 100 100 10 (TextContent demo_text), box 0 0 100 10 (ImageContent [])]"
    and r: "filter (\<lambda>i. centerX i \<ge> 125) demo_page = [box 150 0 100 10 (TextContent demo_text)]"
    by (simp_all add: demo_page_def centerX_def box_def)
  have left: "recursiveOrder [box 0 100 100 10 (TextContent demo_text), box 0 0 100 10 (ImageContent [])]
      = Some [box 0 0 100 10 (ImageContent []), box 0 100 100 10 (TextContent demo_text)]"
    by (rule pair_rows) (simp_all add: box_def)
  show ?thesis
    unfolding reorderItemsByReadingFlow_def
    by (subst recursiveOrder_splitX [OF _ sx])
      (simp_all add: l r left recursiveOrder_short, simp add: demo_page_def)
qed

text \<open>With negative widths the recursion need not return.\<close>

lemma inverted_pair_diverges: "recursiveOrder inverted_pair = None"
proof -
  have sx: "findSplit inverted_pair AxisX = Some (- (199 / 2))"
    by (simp add: inverted_pair_def findSplit_def getContributors_def type_of_def intervalOf_def
        MIN_COL_GAP_def box_def)
  have l: "filter (\<lambda>i. centerX i < - (199 / 2)) inverted_pair = inverted_pair"
    by (simp add: inverted_pair_def centerX_def box_def)
  have len: "length inverted_pair = 2" by (simp add: inverted_pair_def)
  have "list \<noteq> inverted_pair" if r: "recursiveOrder list = Some out" for list out
  proof (rule recursiveOrder.raw_induct [where P = "\<lambda>l res. l \<noteq> inverted_pair", OF _ r],
      goal_cases)
    case (1 rec l res)
    show ?case
    proof
      assume eq: "l = inverted_pair"
      have "rec inverted_pair = None"
        using 1(1) by (cases "rec inverted_pair") auto
      then show False using 1(2) unfolding eq by (simp add: len sx l)
    qed
  qed
  then show ?thesis by (cases "recursiveOrder inverted_pair") auto
qed

section \<open>Properties of the text block merger\<close>

lemma mergeStep_prefix:
  "mergeStep (pre, cur) n = (pre @ fst (mergeStep ([], cur) n), snd (mergeStep ([], cur) n))"
  by (simp split: item_content.splits)

declare mergeStep.simps [simp del]

lemma fold_mergeStep_prefix:
  "fold (\<lambda>nxt st. mergeStep st nxt) rest (pre, cur) =
     (pre @ fst (fold (\<lambda>nxt st. mergeStep st nxt) rest ([], cur)),
      snd (fold (\<lambda>nxt st. mergeStep st nxt) rest ([], cur)))"
proof (induction rest arbitrary: pre cur)
  case Nil
  show ?case by simp
next
  case (Cons n rest)
  obtain m c where step: "mergeStep ([], cur) n = (m, c)" by (cases "mergeStep ([], cur) n")
  have full: "mergeStep (pre, cur) n = (pre @ m, c)"
    using mergeStep_prefix [of pre cur n] by (simp add: step)
  show ?case
    using Cons.IH [of "pre @ m" c] Cons.IH [of m c] by (simp add: step full)
qed

lemma mergeTextBlocks_unfold:
  "mergeTextBlocks (a # b # rest) =
     fst (mergeStep ([], a) b) @ mergeTextBlocks (snd (mergeStep ([], a) b) # rest)"
proof -
  obtain m c where step: "mergeStep ([], a) b = (m, c)" by (cases "mergeStep ([], a) b")
  show ?thesis
    using fold_mergeStep_prefix [of rest m c]
    by (simp add: mergeTextBlocks_def step split: prod.splits)
qed

lemma mergeTextBlocks_single: "mergeTextBlocks [a] = [a]"
  by (simp add: mergeTextBlocks_def)

lemma mergeTextBlocks_text_pair:
  assumes "content a = TextContent ct" and "content b = TextContent nt"
  shows "mergeTextBlocks (a # b # rest) =
     (if canMerge a ct b nt then mergeTextBlocks (mergeInto a ct b nt # rest)
      else a # mergeTextBlocks (b # rest))"
  by (simp add: mergeTextBlocks_unfold mergeStep.simps assms)

lemma numberPattern_iff:
  "numberPattern t \<longleftrightarrow>
     (\<exists>ds p w r. t = ds @ p # w # r \<and> ds \<noteq> [] \<and> (\<forall>d \<in> set ds. 48 \<le> d \<and> d \<le> 57)
        \<and> (p = 46 \<or> p = 41) \<and> isWhitespace w)"
proof
  assume np: "numberPattern t"
  then obtain p w r where d: "dropWhile isDigit t = p # w # r" "p = 46 \<or> p = 41" "isWhitespace w"
    by (auto simp: numberPattern_def split: list.splits)
  have "t = takeWhile isDigit t @ p # w # r" using d(1) by (metis takeWhile_dropWhile_id)
  moreover have "takeWhile isDigit t \<noteq> []" using np by (simp add: numberPattern_def)
  moreover have "\<forall>d \<in> set (takeWhile isDigit t). 48 \<le> d \<and> d \<le> 57"
    using set_takeWhileD [of _ isDigit t] by (auto simp: isDigit_def)
  ultimately show "\<exists>ds p w r. t = ds @ p # w # r \<and> ds \<noteq> [] \<and> (\<forall>d \<in> set ds. 48 \<le> d \<and> d \<le> 57)
        \<and> (p = 46 \<or> p = 41) \<and> isWhitespace w"
    using d(2,3) by blast
next
  assume "\<exists>ds p w r. t = ds @ p # w # r \<and> ds \<noteq> [] \<and> (\<forall>d \<in> set ds. 48 \<le> d \<and> d \<le> 57)
        \<and> (p = 46 \<or> p = 41) \<and> isWhitespace w"
  then obtain ds p w r where t: "t = ds @ p # w # r" and ne: "ds \<noteq> []"
    and digs: "\<forall>d \<in> set ds. isDigit d" and p: "p = 46 \<or> p = 41" and w: "isWhitespace w"
    by (auto simp: isDigit_def)
  have np: "\<not> isDigit p" using p by (auto simp: isDigit_def)
  have "takeWhile isDigit t = ds" using digs np by (simp add: t takeWhile_append2)
  moreover have "dropWhile isDigit t = p # w # r" using digs np by (simp add: t dropWhile_append2)
  ultimately show "numberPattern t" using ne p w by (simp add: numberPattern_def)
qed

lemma bulletPattern_iff:
  "bulletPattern t \<longleftrightarrow>
     (\<exists>c w r. t = c # w # r \<and> (c = 8226 \<or> c = 9679 \<or> c = 45 \<or> c = 42) \<and> isWhitespace w)"
  by (auto simp: bulletPattern_def isBulletGlyph_def split: list.splits)

lemma isList_iff: "(bulletPattern t \<or> numberPattern t) = specListMarker t"
  unfolding specListMarker_def bulletPattern_iff numberPattern_iff ..

lemma canMerge_iff: "canMerge a ct b nt = specFusionCriteria a ct b nt"
  unfolding canMerge_def specFusionCriteria_def Let_def isList_iff by auto


lemmas merge_eval = canMerge_def mergeInto_def mergedText_def trim_def endsWithHyphen_def
  bulletPattern_def numberPattern_def isBulletGlyph_def isDigit_def isWhitespace_def
  textItem_def textProps_def box_def Let_def




text \<open>A pair with an item that is not text is passed through.\<close>

lemma non_text_never_merges:
  assumes "type_of a \<noteq> TypeText \<or> type_of b \<noteq> TypeText"
  shows "mergeTextBlocks (a # b # rest) = a # mergeTextBlocks (b # rest)"
  using assms
  by (cases "content a"; cases "content b")
    (simp_all add: mergeTextBlocks_unfold mergeStep.simps type_of_def)

text \<open>
  C4 (amended). For two mergeable text items with texts a and b, the merged text has
  length len(a) + len(b) + 1 (one space inserted) when the trimmed a does not end with a
  hyphen; when it does, the merged text is the trimmed a without its hyphen followed by
  b, of length len(trim(a)) + len(b) - 1, which is len(a) + len(b) - 1 when a has no
  white space at either end. Merging "inter-" and "national" gives "international".
\<close>

theorem merged_text_length:
  assumes "content a = TextContent ct" and "content b = TextContent nt"
    and "specFusionCriteria a ct b nt"
  shows "\<exists>m mt. mergeTextBlocks [a, b] = [m] \<and> content m = TextContent mt
          \<and> item_text mt =
              (if endsWithHyphen (trim (item_text ct))
               then butlast (trim (item_text ct)) @ item_text nt
               else item_text ct @ [32] @ item_text nt)
          \<and> length (item_text mt) =
              (if endsWithHyphen (trim (item_text ct))
               then length (trim (item_text ct)) + length (item_text nt) - 1
               else length (item_text ct) + length (item_text nt) + 1)
          \<and> (endsWithHyphen (trim (item_text ct)) \<and> trim (item_text ct) = item_text ct \<longrightarrow>
               length (item_text mt) = length (item_text ct) + length (item_text nt) - 1)"
proof -
  define mt where
    "mt = ct\<lparr> item_text := mergedText (item_text ct) (item_text nt),
              indent := (if item_x b < item_x a - 5
                         then Some ((case indent ct of None \<Rightarrow> 0 | Some v \<Rightarrow> v)
                                    + (item_x a - item_x b))
                         else indent ct) \<rparr>"
  have m: "mergeTextBlocks [a, b] = [mergeInto a ct b nt]"
    using mergeTextBlocks_text_pair [OF assms(1,2), of "[]"] assms(3)
    by (simp add: canMerge_iff mergeTextBlocks_single)
  have c: "content (mergeInto a ct b nt) = TextContent mt"
    by (simp add: mergeInto_def Let_def mt_def)
  have t: "item_text mt =
              (if endsWithHyphen (trim (item_text ct))
               then butlast (trim (item_text ct)) @ item_text nt
               else item_text ct @ [32] @ item_text nt)"
    by (simp add: mt_def mergedText_def)
  have l: "length (item_text mt) =
              (if endsWithHyphen (trim (item_text ct))
               then length (trim (item_text ct)) + length (item_text nt) - 1
               else length (item_text ct) + length (item_text nt) + 1)"
  proof (cases "endsWithHyphen (trim (item_text ct))")
    case True
    then have "trim (item_text ct) \<noteq> []" by (simp add: endsWithHyphen_def)
    then have "1 \<le> length (trim (item_text ct))" by (cases "trim (item_text ct)") simp_all
    then have "length (butlast (trim (item_text ct)) @ item_text nt)
                 = length (trim (item_text ct)) + length (item_text nt) - 1"
      by simp
    then show ?thesis using True by (simp only: t if_True)
  next
    case False
    then show ?thesis by (simp add: t)
  qed
  have e: "endsWithHyphen (trim (item_text ct)) \<and> trim (item_text ct) = item_text ct \<longrightarrow>
               length (item_text mt) = length (item_text ct) + length (item_text nt) - 1"
  proof
    assume h: "endsWithHyphen (trim (item_text ct)) \<and> trim (item_text ct) = item_text ct"
    then have hy: "endsWithHyphen (trim (item_text ct))"
      and tr: "trim (item_text ct) = item_text ct" by blast+
    have "length (item_text mt) = length (trim (item_text ct)) + length (item_text nt) - 1"
      using l hy by (simp only: if_True)
    then show "length (item_text mt) = length (item_text ct) + length (item_text nt) - 1"
      by (simp only: tr)
  qed
  show ?thesis
    by (intro exI [of _ "mergeInto a ct b nt"] exI [of _ mt] conjI m c t l e)
qed

theorem merged_text_length_witness:
  "specFusionCriteria (textItem 100 0 50 12 str_inter 12) (textProps str_inter 12)
     (textItem 100 14 50 12 str_national 12) (textProps str_national 12)
   \<and> endsWithHyphen (trim str_inter) \<and> trim str_inter = str_inter
   \<and> mergeTextBlocks [textItem 100 0 50 12 str_inter 12, textItem 100 14 50 12 str_national 12]
       = [textItem 100 0 50 26 str_international 12]
   \<and> (\<exists>m mt. mergeTextBlocks [textItem 100 0 50 12 str_inter 12,
                               textItem 100 14 50 12 str_national 12] = [m]
          \<and> content m = TextContent mt
          \<and> length (item_text mt) = length str_inter + length str_national - 1)"
proof -
  have a: "content (textItem 100 0 50 12 str_inter 12) = TextContent (textProps str_inter 12)"
    and b: "content (textItem 100 14 50 12 str_national 12)
             = TextContent (textProps str_national 12)"
    by (simp_all add: textItem_def box_def)
  have crit: "specFusionCriteria (textItem 100 0 50 12 str_inter 12) (textProps str_inter 12)
     (textItem 100 14 50 12 str_national 12) (textProps str_national 12)"
    unfolding canMerge_iff [symmetric] by (simp add: merge_eval str_national_def)
  have hy: "endsWithHyphen (trim str_inter)" "trim str_inter = str_inter"
    by (simp_all add: merge_eval str_inter_def)
  have val: "mergeTextBlocks [textItem 100 0 50 12 str_inter 12,
                               textItem 100 14 50 12 str_national 12]
       = [textItem 100 0 50 26 str_international 12]"
    using mergeTextBlocks_text_pair [OF a b, of "[]"] crit
    by (simp add: canMerge_iff mergeTextBlocks_single)
       (simp add: merge_eval str_inter_def str_national_def str_international_def)
  have t: "item_text (textProps str_inter 12) = str_inter"
    "item_text (textProps str_national 12) = str_national"
    by (simp_all add: textProps_def)
  from merged_text_length [OF a b crit] hy
  have "\<exists>m mt. mergeTextBlocks [textItem 100 0 50 12 str_inter 12,
                               textItem 100 14 50 12 str_national 12] = [m]
          \<and> content m = TextContent mt
          \<and> length (item_text mt) = length str_inter + length str_national - 1"
    unfolding t by blast
  then show ?thesis using crit hy val by blast
qed

text \<open>
  The claim as first stated fails when the first text ends with white space after its
  hyphen: "inter- " and "national" merge into "international", 13 code units and not
  7 + 8 - 1.
\<close>

theorem merged_text_length_counterexample:
  "canMerge (textItem 100 0 50 12 str_inter_sp 12) (textProps str_inter_sp 12)
     (textItem 100 14 50 12 str_national 12) (textProps str_national 12)
   \<and> endsWithHyphen (trim str_inter_sp)
   \<and> mergeTextBlocks [textItem 100 0 50 12 str_inter_sp 12,
                       textItem 100 14 50 12 str_national 12]
       = [textItem 100 0 50 26 str_international 12]
   \<and> length str_international \<noteq> length str_inter_sp + length str_national - 1"
proof -
  have a: "content (textItem 100 0 50 12 str_inter_sp 12)
             = TextContent (textProps str_inter_sp 12)"
    and b: "content (textItem 100 14 50 12 str_national 12)
             = TextContent (textProps str_national 12)"
    by (simp_all add: textItem_def box_def)
  have crit: "canMerge (textItem 100 0 50 12 str_inter_sp 12) (textProps str_inter_sp 12)
     (textItem 100 14 50 12 str_national 12) (textProps str_national 12)"
    by (simp add: merge_eval str_national_def)
  have hy: "endsWithHyphen (trim str_inter_sp)"
    by (simp add: merge_eval str_inter_sp_def)
  have val: "mergeTextBlocks [textItem 100 0 50 12 str_inter_sp 12,
                               textItem 100 14 50 12 str_national 12]
       = [textItem 100 0 50 26 str_international 12]"
    using mergeTextBlocks_text_pair [OF a b, of "[]"] crit
    by (simp add: mergeTextBlocks_single)
       (simp add: merge_eval str_inter_sp_def str_national_def str_international_def)
  have "length str_international \<noteq> length str_inter_sp + length str_national - 1"
    by (simp add: str_international_def str_inter_sp_def str_national_def)
  then show ?thesis using crit hy val by blast
qed


text \<open>
  C6 (amended). When two text items are merged, the merged item keeps the y of the first,
  its bottom edge is the bottom edge of the second, and its width is the largest right
  edge minus the smallest x. When the x of the second is not less than the x of the
  first, or more than 5 units less, the x of the merged item is the smallest x and its
  right edge the largest right edge; when the first item does not reach below the second,
  its bottom edge is the largest bottom edge.
\<close>

theorem merged_box:
  assumes "content a = TextContent ct" and "content b = TextContent nt"
    and "specFusionCriteria a ct b nt"
  shows "\<exists>m. mergeTextBlocks [a, b] = [m]
          \<and> item_y m = item_y a
          \<and> item_y m + item_height m = item_y b + item_height b
          \<and> item_width m = max (item_x a + item_width a) (item_x b + item_width b)
                              - min (item_x a) (item_x b)
          \<and> (item_x a \<le> item_x b \<or> item_x b < item_x a - 5 \<longrightarrow>
                item_x m = min (item_x a) (item_x b)
                \<and> item_x m + item_width m
                    = max (item_x a + item_width a) (item_x b + item_width b))
          \<and> (item_y a + item_height a \<le> item_y b + item_height b \<longrightarrow>
                item_y m + item_height m
                  = max (item_y a + item_height a) (item_y b + item_height b))"
proof -
  have m: "mergeTextBlocks [a, b] = [mergeInto a ct b nt]"
    using mergeTextBlocks_text_pair [OF assms(1,2), of "[]"] assms(3)
    by (simp add: canMerge_iff mergeTextBlocks_single)
  have y: "item_y (mergeInto a ct b nt) = item_y a"
    and h: "item_height (mergeInto a ct b nt) = item_y b + item_height b - item_y a"
    and w: "item_width (mergeInto a ct b nt)
             = max (item_x a + item_width a) (item_x b + item_width b) - min (item_x a) (item_x b)"
    and x: "item_x (mergeInto a ct b nt) = (if item_x b < item_x a - 5 then item_x b else item_x a)"
    by (simp_all add: mergeInto_def Let_def)
  have xs: "item_x a \<le> item_x b \<or> item_x b < item_x a - 5 \<longrightarrow>
                item_x (mergeInto a ct b nt) = min (item_x a) (item_x b)
                \<and> item_x (mergeInto a ct b nt) + item_width (mergeInto a ct b nt)
                    = max (item_x a + item_width a) (item_x b + item_width b)"
    unfolding x w by auto
  have bs: "item_y a + item_height a \<le> item_y b + item_height b \<longrightarrow>
                item_y (mergeInto a ct b nt) + item_height (mergeInto a ct b nt)
                  = max (item_y a + item_height a) (item_y b + item_height b)"
    unfolding y h by auto
  have b: "item_y (mergeInto a ct b nt) + item_height (mergeInto a ct b nt)
             = item_y b + item_height b"
    unfolding y h by simp
  show ?thesis
    by (intro exI [of _ "mergeInto a ct b nt"] conjI m y b w xs bs)
qed

theorem merged_box_witness:
  "specFusionCriteria (textItem 100 0 50 12 str_inter 12) (textProps str_inter 12)
     (textItem 90 14 80 12 str_national 12) (textProps str_national 12)
   \<and> mergeTextBlocks [textItem 100 0 50 12 str_inter 12, textItem 90 14 80 12 str_national 12]
       = [box 90 0 80 26 (TextContent ((textProps str_international 12)\<lparr>indent := Some 10\<rparr>))]
   \<and> (\<exists>m. mergeTextBlocks [textItem 100 0 50 12 str_inter 12,
                            textItem 90 14 80 12 str_national 12] = [m]
          \<and> item_x m = min 100 90 \<and> item_x m + item_width m = max (100 + 50) (90 + 80)
          \<and> item_y m = 0 \<and> item_y m + item_height m = max (0 + 12) (14 + 12))"
proof -
  have a: "content (textItem 100 0 50 12 str_inter 12) = TextContent (textProps str_inter 12)"
    and b: "content (textItem 90 14 80 12 str_national 12)
             = TextContent (textProps str_national 12)"
    by (simp_all add: textItem_def box_def)
  have crit: "specFusionCriteria (textItem 100 0 50 12 str_inter 12) (textProps str_inter 12)
     (textItem 90 14 80 12 str_national 12) (textProps str_national 12)"
    unfolding canMerge_iff [symmetric] by (simp add: merge_eval str_national_def)
  have val: "mergeTextBlocks [textItem 100 0 50 12 str_inter 12,
                               textItem 90 14 80 12 str_national 12]
       = [box 90 0 80 26 (TextContent ((textProps str_international 12)\<lparr>indent := Some 10\<rparr>))]"
    using mergeTextBlocks_text_pair [OF a b, of "[]"] crit
    by (simp add: canMerge_iff mergeTextBlocks_single)
       (simp add: merge_eval str_inter_def str_national_def str_international_def)
  have g: "item_x (textItem 100 0 50 12 str_inter 12) = 100"
    "item_width (textItem 100 0 50 12 str_inter 12) = 50"
    "item_y (textItem 100 0 50 12 str_inter 12) = 0"
    "item_height (textItem 100 0 50 12 str_inter 12) = 12"
    "item_x (textItem 90 14 80 12 str_national 12) = 90"
    "item_width (textItem 90 14 80 12 str_national 12) = 80"
    "item_y (textItem 90 14 80 12 str_national 12) = 14"
    "item_height (textItem 90 14 80 12 str_national 12) = 12"
    by (simp_all add: textItem_def box_def)
  from merged_box [OF a b crit]
  have "\<exists>m. mergeTextBlocks [textItem 100 0 50 12 str_inter 12,
                            textItem 90 14 80 12 str_national 12] = [m]
          \<and> item_x m = min 100 90 \<and> item_x m + item_width m = max (100 + 50) (90 + 80)
          \<and> item_y m = 0 \<and> item_y m + item_height m = max (0 + 12) (14 + 12)"
    unfolding g by auto
  then show ?thesis using crit val by blast
qed

text \<open>
  The merged box is not always the union of the two boxes: with the second item 3 units
  to the left of the first and ending above it, the merged item keeps x = 100 (not 97),
  its right edge is 153 (not 150) and its bottom edge 11.5 (not 12).
\<close>

theorem merged_box_counterexample:
  "canMerge (textItem 100 0 50 12 str_inter 12) (textProps str_inter 12)
     (textItem 97 1 50 10.5 str_national 10.5) (textProps str_national 10.5)
   \<and> mergeTextBlocks [textItem 100 0 50 12 str_inter 12,
                       textItem 97 1 50 10.5 str_national 10.5]
       = [textItem 100 0 53 11.5 str_international 12]
   \<and> item_x (textItem 100 0 53 11.5 str_international 12)
       \<noteq> min (item_x (textItem 100 0 50 12 str_inter 12))
             (item_x (textItem 97 1 50 10.5 str_national 10.5))
   \<and> item_x (textItem 100 0 53 11.5 str_international 12)
       + item_width (textItem 100 0 53 11.5 str_international 12)
       \<noteq> max (item_x (textItem 100 0 50 12 str_inter 12)
                + item_width (textItem 100 0 50 12 str_inter 12))
             (item_x (textItem 97 1 50 10.5 str_national 10.5)
                + item_width (textItem 97 1 50 10.5 str_national 10.5))
   \<and> item_y (textItem 100 0 53 11.5 str_international 12)
       + item_height (textItem 100 0 53 11.5 str_international 12)
       \<noteq> max (item_y (textItem 100 0 50 12 str_inter 12)
                + item_height (textItem 100 0 50 12 str_inter 12))
             (item_y (textItem 97 1 50 10.5 str_national 10.5)
                + item_height (textItem 97 1 50 10.5 str_national 10.5))"
proof -
  have a: "content (textItem 100 0 50 12 str_inter 12) = TextContent (textProps str_inter 12)"
    and b: "content (textItem 97 1 50 10.5 str_national 10.5)
             = TextContent (textProps str_national 10.5)"
    by (simp_all add: textItem_def box_def)
  have crit: "canMerge (textItem 100 0 50 12 str_inter 12) (textProps str_inter 12)
     (textItem 97 1 50 10.5 str_national 10.5) (textProps str_national 10.5)"
    by (simp add: merge_eval str_national_def)
  have val: "mergeTextBlocks [textItem 100 0 50 12 str_inter 12,
                       textItem 97 1 50 10.5 str_national 10.5]
       = [textItem 100 0 53 11.5 str_international 12]"
    using mergeTextBlocks_text_pair [OF a b, of "[]"] crit
    by (simp add: mergeTextBlocks_single)
       (simp add: merge_eval str_inter_def str_national_def str_international_def)
  show ?thesis
    using crit val by (simp add: textItem_def box_def)
qed

section \<open>Properties of line grouping\<close>

lemma sqrt_font_12: "sqrt ((12::real)\<^sup>2 + 0\<^sup>2) = 12"
  using real_sqrt_abs [of 12] by simp

lemmas group_eval = groupTextRuns_def buildLineMap_def isBlank_def trim_def isWhitespace_def
  lineKey_def lineMapGet_def groupLine_def groupStep_def closeLine_def newGroup_def fuseRun_def
  assignAlignment_def calculateLineSpacingStats_def str_bold_def toLowerCaseAscii_def Let_def

text \<open>
  When a group is created, its alignment follows the rule on the box it has at that
  moment, which is the box of its first run.
\<close>

lemma newGroup_alignment:
  "\<exists>t. content (newGroup vw vh pg ly st r) = TextContent t
      \<and> (alignment t = Some AlignCenter)
           = (\<bar>(item_x (newGroup vw vh pg ly st r) + item_width (newGroup vw vh pg ly st r) / 2)
                - vw / 2\<bar> < 15)
      \<and> (alignment t = Some AlignRight)
           = (\<not> \<bar>(item_x (newGroup vw vh pg ly st r)
                     + item_width (newGroup vw vh pg ly st r) / 2) - vw / 2\<bar> < 15
              \<and> item_x (newGroup vw vh pg ly st r) > vw * 0.65)
      \<and> (alignment t = None)
           = (\<not> \<bar>(item_x (newGroup vw vh pg ly st r)
                     + item_width (newGroup vw vh pg ly st r) / 2) - vw / 2\<bar> < 15
              \<and> \<not> item_x (newGroup vw vh pg ly st r) > vw * 0.65)"
  by (simp add: newGroup_def assignAlignment_def Let_def)

text \<open>
  When a run is fused into the group, the group is widened up to the right edge of the
  run, and its alignment stays as it was.
\<close>

lemma fuseRun_keeps_alignment:
  assumes "content g = TextContent t"
  shows "\<exists>t'. content (fuseRun g r) = TextContent t' \<and> alignment t' = alignment t
           \<and> item_x (fuseRun g r) = item_x g
           \<and> item_width (fuseRun g r) = transform4 r + run_width r - item_x g"
  by (simp add: fuseRun_def Let_def assms)

text \<open>A line of one run: the item is that run, and the rule holds of it.\<close>

lemma group_one_run: "groupTextRuns 600 800 [run1] = [grouped_one]"
  using sqrt_font_12 by (simp add: group_eval run1_def grouped_one_def)

text \<open>
  C9. The claim gives a produced text item the alignment 'center' if and only if its
  horizontal center lies within 15 units of the horizontal midpoint of the page. The code
  decides the alignment when it creates the group and not again when it widens it. On a
  page 600 wide, a line of two runs, the first at x = 290 of width 20 and the second at
  x = 312 of width 200, is grouped into one item from 290 to 512: its center is 401,
  which is 101 units from the midpoint 300, and its alignment is 'center'.
\<close>

theorem alignment_not_recomputed:
  "groupTextRuns 600 800 [run1, run2] = [grouped_two]
   \<and> content grouped_two = TextContent \<lparr> item_text = [65, 66, 67, 68, 69, 70, 71, 72, 73, 74, 75],
       fontSize = 12, fontName = [70],
       isBold = Some False, letterSpacing = None, isParagraphStart = Some True,
       indent = Some 0, alignment = Some AlignCenter \<rparr>
   \<and> item_x grouped_two + item_width grouped_two / 2 = 401
   \<and> \<not> \<bar>(item_x grouped_two + item_width grouped_two / 2) - 600 / 2\<bar> < 15"
proof -
  have "groupTextRuns 600 800 [run1, run2] = [grouped_two]"
    using sqrt_font_12 by (simp add: group_eval run1_def run2_def grouped_two_def)
  then show ?thesis by (simp add: grouped_two_def)
qed


section \<open>Properties of the translation\<close>

lemma frameOf_setText: "frameOf (setText txt it) = frameOf it"
  by (cases "content it") (simp_all add: frameOf_def setText_def)

lemma frameOf_setRows: "frameOf (setRows rows it) = frameOf it"
  by (cases "content it") (simp_all add: frameOf_def setRows_def)

lemma frames_update:
  assumes "frameOf v = frameOf (xs ! k)"
  shows "map frameOf (xs[k := v]) = map frameOf xs"
proof (cases "k < length xs")
  case True
  have "map frameOf (xs[k := v]) = (map frameOf xs)[k := frameOf (xs ! k)]"
    by (simp add: map_update assms)
  also have "\<dots> = (map frameOf xs)[k := (map frameOf xs) ! k]" using True by simp
  also have "\<dots> = map frameOf xs" by (rule list_update_id)
  finally show ?thesis .
next
  case False
  then have "xs[k := v] = xs" by (intro list_update_beyond) simp
  then show ?thesis by (simp only:)
qed

lemma frames_assignBatch:
  "map frameOf (assignBatch textIndices i n bIdx translated pageItems) = map frameOf pageItems"
proof (induction translated arbitrary: bIdx pageItems)
  case Nil
  show ?case by simp
next
  case (Cons translated1 others)
  show ?case by (simp add: Cons.IH frames_update frameOf_setText)
qed

lemma frames_translateBatches:
  "translateBatches ai pIdx textIndices textContents i pageItems = Inr out \<Longrightarrow>
     map frameOf out = map frameOf pageItems"
proof (induction ai pIdx textIndices textContents i pageItems rule: translateBatches.induct)
  case (1 ai pIdx textIndices textContents i pageItems)
  show ?case
  proof (cases "i < length textContents")
    case False
    then show ?thesis using "1.prems" by (simp add: translateBatches.simps [of _ _ _ _ i])
  next
    case True
    note step = translateBatches.simps [of ai pIdx textIndices textContents i pageItems]
    show ?thesis
    proof (cases "ai pIdx i (take BATCH_SIZE (drop i textContents))")
      case ReplyFatal
      then show ?thesis using "1.prems" True by (simp add: step)
    next
      case ReplyFailed
      then show ?thesis using "1.prems" True "1.IH"(1) [OF True refl ReplyFailed]
        by (simp add: step)
    next
      case ReplyNotArray
      then show ?thesis using "1.prems" True "1.IH"(2) [OF True refl ReplyNotArray]
        by (simp add: step)
    next
      case (ReplyArray translated)
      then show ?thesis using "1.prems" True "1.IH"(3) [OF True refl ReplyArray]
        by (simp add: step frames_assignBatch)
    qed
  qed
qed


lemma frames_translateTables:
  "translateTables ai pIdx i pageItems = Inr out \<Longrightarrow>
     map frameOf out = map frameOf pageItems"
proof (induction ai pIdx i pageItems rule: translateTables.induct)
  case (1 ai pIdx i pageItems)
  note step = translateTables.simps [of ai pIdx i pageItems]
  show ?case
  proof (cases "i < length pageItems")
    case False
    then show ?thesis using "1.prems" by (simp add: step)
  next
    case True
    show ?thesis
    proof (cases "content (pageItems ! i)")
      case (TextContent t)
      then show ?thesis using "1.prems" True "1.IH"(1) [OF True TextContent] by (simp add: step)
    next
      case (ImageContent d)
      then show ?thesis using "1.prems" True "1.IH"(2) [OF True ImageContent] by (simp add: step)
    next
      case (PathContent p)
      then show ?thesis using "1.prems" True "1.IH"(3) [OF True PathContent] by (simp add: step)
    next
      case (TableContent rows borders)
      show ?thesis
      proof (cases "ai pIdx i rows")
        case TableFatal
        then show ?thesis using "1.prems" True TableContent by (simp add: step)
      next
        case TableFailed
        then show ?thesis
          using "1.prems" True TableContent "1.IH"(4) [OF True TableContent TableFailed]
          by (simp add: step)
      next
        case (TableRows parsed)
        then show ?thesis
          using "1.prems" True TableContent "1.IH"(5) [OF True TableContent TableRows]
          by (simp add: step frames_update frameOf_setRows)
      qed
    qed
  qed
qed

declare translateBatches.simps [simp del] translateTables.simps [simp del]

lemma frames_translatePage:
  assumes "translatePage textAi tableAi pIdx page = Inr newPage"
  shows "map frameOf (items newPage) = map frameOf (items page)"
    and "page_width newPage = page_width page" and "page_height newPage = page_height page"
proof -
  from assms obtain p1 p2 where
    b: "translateBatches textAi pIdx (textIndicesOf (items page)) (textContentsOf (items page))
          0 (items page) = Inr p1"
    and t: "translateTables tableAi pIdx 0 p1 = Inr p2"
    and n: "newPage = page\<lparr> items := p2 \<rparr>"
    by (auto simp: translatePage_def Let_def split: sum.splits)
  show "map frameOf (items newPage) = map frameOf (items page)"
    using frames_translateBatches [OF b] frames_translateTables [OF t] by (simp add: n)
  show "page_width newPage = page_width page" and "page_height newPage = page_height page"
    by (simp_all add: n)
qed

lemma frames_translatePages:
  "translatePages textAi tableAi pIdx ps acc = Inr out \<Longrightarrow>
     \<exists>new. out = acc @ new \<and> list_all2 sameFrame ps new"
proof (induction ps arbitrary: pIdx acc)
  case Nil
  then show ?case by simp
next
  case (Cons page rest)
  from Cons.prems obtain newPage where
    p: "translatePage textAi tableAi pIdx page = Inr newPage"
    and r: "translatePages textAi tableAi (pIdx + 1) rest (acc @ [newPage]) = Inr out"
    by (auto split: sum.splits)
  from Cons.IH [OF r] obtain new where
    new: "out = (acc @ [newPage]) @ new" "list_all2 sameFrame rest new" by blast
  have "sameFrame page newPage"
    using frames_translatePage [OF p] by (simp add: sameFrame_def)
  then show ?case using new by (intro exI [of _ "newPage # new"]) simp
qed


lemma frameOf_eq_fields:
  assumes "frameOf b = frameOf a"
  shows "item_x b = item_x a \<and> item_y b = item_y a \<and> item_width b = item_width a
       \<and> item_height b = item_height a \<and> type_of b = type_of a
       \<and> (\<forall>t. content a = TextContent t \<longrightarrow>
             (\<exists>new. content b = TextContent (t\<lparr> item_text := new \<rparr>)))
       \<and> (\<forall>rows borders. content a = TableContent rows borders \<longrightarrow>
             (\<exists>new. content b = TableContent new borders))
       \<and> (type_of a = TypeImage \<or> type_of a = TypePath \<longrightarrow> content b = content a)"
proof -
  have g: "item_x (frameOf b) = item_x (frameOf a)" "item_y (frameOf b) = item_y (frameOf a)"
    "item_width (frameOf b) = item_width (frameOf a)"
    "item_height (frameOf b) = item_height (frameOf a)"
    and c: "content (frameOf b) = content (frameOf a)"
    using assms by simp_all
  have geom: "item_x b = item_x a \<and> item_y b = item_y a \<and> item_width b = item_width a
       \<and> item_height b = item_height a"
    using g by (simp add: frameOf_def)
  have cont: "(case content b of
                        TextContent t \<Rightarrow> TextContent (t\<lparr> item_text := [] \<rparr>)
                      | TableContent rows borders \<Rightarrow> TableContent [] borders
                      | c \<Rightarrow> c)
            = (case content a of
                        TextContent t \<Rightarrow> TextContent (t\<lparr> item_text := [] \<rparr>)
                      | TableContent rows borders \<Rightarrow> TableContent [] borders
                      | c \<Rightarrow> c)"
    using c by (simp add: frameOf_def)
  have ty: "type_of b = type_of a"
    using cont by (cases "content a"; cases "content b") (simp_all add: type_of_def)
  have tx: "\<exists>new. content b = TextContent (t\<lparr> item_text := new \<rparr>)"
    if "content a = TextContent t" for t
  proof -
    from cont that obtain t' where t': "content b = TextContent t'"
      "t'\<lparr> item_text := [] \<rparr> = t\<lparr> item_text := [] \<rparr>"
      by (cases "content b") simp_all
    have "t' = t\<lparr> item_text := item_text t' \<rparr>"
      using t'(2) by (cases t, cases t') simp
    then show ?thesis using t'(1) by metis
  qed
  have tb: "\<exists>new. content b = TableContent new borders"
    if "content a = TableContent rows borders" for rows borders
    using cont that by (cases "content b") simp_all
  have other: "content b = content a" if "type_of a = TypeImage \<or> type_of a = TypePath"
    using cont that by (cases "content a"; cases "content b") (simp_all add: type_of_def)
  show ?thesis using geom ty tx tb other by blast
qed

text \<open>
  C10. Whenever translatePdfStructure returns a structure, it has as many pages as the
  input; every page keeps its width, its height and the number and order of its items;
  every item keeps its type and its x, y, width and height; a text item keeps every field
  but its text; a table item keeps its border flag, and only its rows may differ; an image
  or path item is unchanged.
\<close>

theorem translation_keeps_frame:
  assumes "translatePdfStructure textAi tableAi s = Inr s'"
  shows "length (pages s') = length (pages s)
       \<and> (\<forall>p < length (pages s).
             page_width (pages s' ! p) = page_width (pages s ! p)
           \<and> page_height (pages s' ! p) = page_height (pages s ! p)
           \<and> length (items (pages s' ! p)) = length (items (pages s ! p))
           \<and> (\<forall>k < length (items (pages s ! p)).
                 item_x (items (pages s' ! p) ! k) = item_x (items (pages s ! p) ! k)
               \<and> item_y (items (pages s' ! p) ! k) = item_y (items (pages s ! p) ! k)
               \<and> item_width (items (pages s' ! p) ! k) = item_width (items (pages s ! p) ! k)
               \<and> item_height (items (pages s' ! p) ! k) = item_height (items (pages s ! p) ! k)
               \<and> type_of (items (pages s' ! p) ! k) = type_of (items (pages s ! p) ! k)
               \<and> (\<forall>t. content (items (pages s ! p) ! k) = TextContent t \<longrightarrow>
                     (\<exists>new. content (items (pages s' ! p) ! k)
                              = TextContent (t\<lparr> item_text := new \<rparr>)))
               \<and> (\<forall>rows borders. content (items (pages s ! p) ! k) = TableContent rows borders \<longrightarrow>
                     (\<exists>new. content (items (pages s' ! p) ! k) = TableContent new borders))
               \<and> (type_of (items (pages s ! p) ! k) = TypeImage
                    \<or> type_of (items (pages s ! p) ! k) = TypePath \<longrightarrow>
                     content (items (pages s' ! p) ! k) = content (items (pages s ! p) ! k))))"
proof -
  from assms obtain newPages where
    run: "translatePages textAi tableAi 0 (pages s) [] = Inr newPages"
    and s': "s' = \<lparr> pages = newPages \<rparr>"
    by (auto simp: translatePdfStructure_def split: sum.splits)
  from frames_translatePages [OF run] have all: "list_all2 sameFrame (pages s) newPages"
    by simp
  then have len: "length (pages s') = length (pages s)"
    by (simp add: s' list_all2_lengthD)
  have page: "page_width (pages s' ! p) = page_width (pages s ! p)
           \<and> page_height (pages s' ! p) = page_height (pages s ! p)
           \<and> map frameOf (items (pages s' ! p)) = map frameOf (items (pages s ! p))"
    if "p < length (pages s)" for p
    using list_all2_nthD [OF all that] by (simp add: s' sameFrame_def)
  have count: "length (items (pages s' ! p)) = length (items (pages s ! p))"
    if "p < length (pages s)" for p
    using page [OF that] by (metis length_map)
  have frame: "frameOf (items (pages s' ! p) ! k) = frameOf (items (pages s ! p) ! k)"
    if "p < length (pages s)" and "k < length (items (pages s ! p))" for p k
  proof -
    have "map frameOf (items (pages s' ! p)) ! k = map frameOf (items (pages s ! p)) ! k"
      using page [OF that(1)] by simp
    then show ?thesis using that(2) count [OF that(1)] by simp
  qed
  show ?thesis
    using len page count frameOf_eq_fields [OF frame] by (intro conjI allI impI) blast+
qed


lemma translateBatches_returns:
  "(\<forall>i batch. ai pIdx i batch \<noteq> ReplyFatal) \<Longrightarrow>
     \<exists>out. translateBatches ai pIdx textIndices textContents i pageItems = Inr out"
proof (induction ai pIdx textIndices textContents i pageItems rule: translateBatches.induct)
  case (1 ai pIdx textIndices textContents i pageItems)
  note step = translateBatches.simps [of ai pIdx textIndices textContents i pageItems]
  show ?case
  proof (cases "i < length textContents")
    case False
    then show ?thesis by (simp add: step)
  next
    case True
    show ?thesis
    proof (cases "ai pIdx i (take BATCH_SIZE (drop i textContents))")
      case ReplyFatal
      then show ?thesis using "1.prems" by simp
    next
      case ReplyFailed
      then show ?thesis
        using True "1.IH"(1) [OF True refl ReplyFailed "1.prems"] by (simp add: step)
    next
      case ReplyNotArray
      then show ?thesis
        using True "1.IH"(2) [OF True refl ReplyNotArray "1.prems"] by (simp add: step)
    next
      case (ReplyArray translated)
      then show ?thesis
        using True "1.IH"(3) [OF True refl ReplyArray "1.prems"] by (simp add: step)
    qed
  qed
qed

lemma translateTables_returns:
  "(\<forall>i rows. ai pIdx i rows \<noteq> TableFatal) \<Longrightarrow>
     \<exists>out. translateTables ai pIdx i pageItems = Inr out"
proof (induction ai pIdx i pageItems rule: translateTables.induct)
  case (1 ai pIdx i pageItems)
  note step = translateTables.simps [of ai pIdx i pageItems]
  show ?case
  proof (cases "i < length pageItems")
    case False
    then show ?thesis by (simp add: step)
  next
    case True
    show ?thesis
    proof (cases "content (pageItems ! i)")
      case (TextContent t)
      then show ?thesis
        using True "1.IH"(1) [OF True TextContent "1.prems"] by (simp add: step)
    next
      case (ImageContent d)
      then show ?thesis
        using True "1.IH"(2) [OF True ImageContent "1.prems"] by (simp add: step)
    next
      case (PathContent p)
      then show ?thesis
        using True "1.IH"(3) [OF True PathContent "1.prems"] by (simp add: step)
    next
      case (TableContent rows borders)
      show ?thesis
      proof (cases "ai pIdx i rows")
        case TableFatal
        then show ?thesis using "1.prems" by simp
      next
        case TableFailed
        then show ?thesis
          using True TableContent "1.IH"(4) [OF True TableContent TableFailed "1.prems"]
          by (simp add: step)
      next
        case (TableRows parsed)
        then show ?thesis
          using True TableContent "1.IH"(5) [OF True TableContent TableRows "1.prems"]
          by (simp add: step)
      qed
    qed
  qed
qed

lemma translatePages_returns:
  assumes "\<forall>p i batch. textAi p i batch \<noteq> ReplyFatal"
    and "\<forall>p i rows. tableAi p i rows \<noteq> TableFatal"
  shows "\<exists>out. translatePages textAi tableAi pIdx ps acc = Inr out"
proof (induction ps arbitrary: pIdx acc)
  case Nil
  show ?case by simp
next
  case (Cons page rest)
  obtain p1 where b: "translateBatches textAi pIdx (textIndicesOf (items page))
      (textContentsOf (items page)) 0 (items page) = Inr p1"
    using translateBatches_returns [of textAi pIdx] assms(1) by blast
  obtain p2 where t: "translateTables tableAi pIdx 0 p1 = Inr p2"
    using translateTables_returns [of tableAi pIdx] assms(2) by blast
  have "translatePage textAi tableAi pIdx page = Inr (page\<lparr> items := p2 \<rparr>)"
    by (simp add: translatePage_def b t)
  then show ?case using Cons.IH by simp
qed

text \<open>When no reply is fatal the translation returns a structure.\<close>

lemma translation_returns_without_fatal:
  assumes "\<forall>p i batch. textAi p i batch \<noteq> ReplyFatal"
    and "\<forall>p i rows. tableAi p i rows \<noteq> TableFatal"
  shows "\<exists>s'. translatePdfStructure textAi tableAi s = Inr s'"
proof -
  obtain out where "translatePages textAi tableAi 0 (pages s) [] = Inr out"
    using translatePages_returns [OF assms] by blast
  then show ?thesis by (simp add: translatePdfStructure_def)
qed

lemma demo_translation:
  "translatePdfStructure demo_textAi demo_tableAi demo_structure = Inr demo_translated"
proof -
  define its where "its = [textItem 10 20 100 12 str_inter 12, demo_table]"
  have len: "length its = 2" by (simp add: its_def)
  have tr: "isTranslatable (its ! 0)" "\<not> isTranslatable (its ! 1)"
    by (simp_all add: its_def isTranslatable_def textItem_def textProps_def box_def
        demo_table_def trim_def isWhitespace_def str_inter_def)
  have upt2: "[0 ..< 2] = [0, Suc 0]" by (simp add: upt_rec)
  have idx: "textIndicesOf its = [0]"
    using tr by (simp add: textIndicesOf_def len upt2)
  have cont: "textContentsOf its = [str_inter]"
    by (simp add: textContentsOf_def idx) (simp add: its_def textItem_def textProps_def box_def)
  have b: "translateBatches demo_textAi 0 [0] [str_inter] 0 its
             = Inr [textItem 10 20 100 12 (rev str_inter) 12, demo_table]"
    by (simp add: translateBatches.simps [of _ _ _ _ 0] translateBatches.simps [of _ _ _ _ 40]
        BATCH_SIZE_def demo_textAi_def Let_def its_def setText_def textItem_def textProps_def
        box_def)
  have t: "translateTables demo_tableAi 0 0 [textItem 10 20 100 12 (rev str_inter) 12, demo_table]
             = Inr [textItem 10 20 100 12 (rev str_inter) 12,
                    box 0 100 100 50 (TableContent [] True)]"
    by (simp add: translateTables.simps [of _ _ 0] translateTables.simps [of _ _ "Suc 0"]
        translateTables.simps [of _ _ "Suc (Suc 0)"] demo_tableAi_def
        textItem_def box_def demo_table_def setRows_def)
  show ?thesis
    using b t
    by (simp add: translatePdfStructure_def translatePage_def demo_structure_def
        demo_translated_def idx cont its_def [symmetric] Let_def)
qed

theorem translation_keeps_frame_witness:
  "translatePdfStructure demo_textAi demo_tableAi demo_structure = Inr demo_translated
   \<and> length (pages demo_translated) = length (pages demo_structure)"
  using translation_keeps_frame [OF demo_translation] demo_translation by blast


end
